theory Spec2Isabelle
  imports Complex_Main "HOL-Library.AList"
begin

section \<open>Schema graphs\<close>

text \<open>
  The schema walker of \<^verbatim>\<open>src/helpers/utils/index.ts\<close> traverses zod schema objects. Schema
  objects are heap objects with identity: the functions keep a \<^verbatim>\<open>WeakSet\<close> of the objects
  already entered, and a schema may be reached along several paths or, through
  \<^verbatim>\<open>z.lazy\<close>, from itself. The heap is modelled as a list of nodes; a reference is the
  index of a node, in allocation order. A reference outside the list stands for a falsy
  shape value (\<^verbatim>\<open>undefined\<close>).

  A node carries what the walker inspects: its class (\<^verbatim>\<open>instanceof\<close>), and the annotation
  methods \<^verbatim>\<open>isFilterable\<close>, \<^verbatim>\<open>isSortable\<close>, \<^verbatim>\<open>isQueryable\<close>, \<^verbatim>\<open>isPath\<close>, \<^verbatim>\<open>path\<close> that
  \<^verbatim>\<open>extendZodType\<close> of \<^verbatim>\<open>src/zod/extensions/index.ts\<close> attaches, all together, to a node
  (\<open>ext = None\<close>: a node of plain zod, without these methods; \<open>ext = Some d\<close>: an extended
  node whose description holds the annotations \<open>d\<close>).

  A \<^verbatim>\<open>z.lazy\<close> getter is modelled by its outcome: it returns a fixed node or it throws.
  Property names are ordinary names (no \<^verbatim>\<open>__proto__\<close>, no integer-like names, whose
  enumeration order differs from insertion order).
\<close>

type_synonym ref = nat

datatype getter = Returns ref | Throws

record description =
  filterable :: bool
  sortable :: bool
  queryable :: bool
  path :: "string list option"

datatype zdef =
    ZodObject "(string \<times> ref) list"
  | ZodArray ref
  | ZodLazy getter
  | ZodOther

record znode =
  zdef :: zdef
  ext :: "description option"

type_synonym store = "znode list"

definition deref :: "store \<Rightarrow> ref \<Rightarrow> znode option" where
  "deref st r = (if r < length st then Some (st ! r) else None)"

text \<open>\<^verbatim>\<open>x instanceof z.ZodObject\<close>, for a node \<open>x\<close>.\<close>

definition isZodObject :: "znode \<Rightarrow> bool" where
  "isZodObject x = (case zdef x of ZodObject shape \<Rightarrow> True | _ \<Rightarrow> False)"

text \<open>\<^verbatim>\<open>x instanceof z.ZodLazy\<close>, for a node \<open>x\<close>.\<close>

definition isZodLazy :: "znode \<Rightarrow> bool" where
  "isZodLazy x = (case zdef x of ZodLazy g \<Rightarrow> True | _ \<Rightarrow> False)"

definition refIsZodObject :: "store \<Rightarrow> ref \<Rightarrow> bool" where
  "refIsZodObject st r = (case deref st r of Some x \<Rightarrow> isZodObject x | None \<Rightarrow> False)"

text \<open>
  \<^verbatim>\<open>x instanceof z.ZodArray && x._def.type instanceof z.ZodObject\<close>: the element node when
  the test succeeds.
\<close>

definition arrayOfObject :: "store \<Rightarrow> znode \<Rightarrow> ref option" where
  "arrayOfObject st x =
     (case zdef x of
        ZodArray t \<Rightarrow> (if refIsZodObject st t then Some t else None)
      | _ \<Rightarrow> None)"

text \<open>The annotation predicates of an extended node: \<^verbatim>\<open>!!this.description?.[KEY]\<close>.\<close>

definition hasFlag :: "(description \<Rightarrow> bool) \<Rightarrow> znode \<Rightarrow> bool" where
  "hasFlag flag x = (case ext x of Some d \<Rightarrow> flag d | None \<Rightarrow> False)"

section \<open>Capability trees\<close>

text \<open>
  The result of \<^verbatim>\<open>getFilterable\<close>, \<^verbatim>\<open>getSortable\<close> and \<^verbatim>\<open>getQueryable\<close> is a plain
  object whose values are \<^verbatim>\<open>true\<close> or nested objects of the same kind. Objects are
  association lists in insertion order; \<^verbatim>\<open>obj[key] = v\<close> is \<^const>\<open>AList.update\<close>.
\<close>

datatype cap = CTrue | CTree "(string \<times> cap) list"

type_synonym caps = "(string \<times> cap) list"

datatype js_error = TypeError | ResolverError | UnsupportedOperator string

text \<open>
  \<^verbatim>\<open>setNestedKey(obj, [key], true)\<close>: every call site passes a path of one element, for
  which the loop of \<^verbatim>\<open>setNestedKey\<close> does not run and its last line assigns
  \<^verbatim>\<open>obj[key] = true\<close>.
\<close>

definition setNestedKey :: "caps \<Rightarrow> string \<Rightarrow> caps" where
  "setNestedKey obj key = AList.update key CTrue obj"

text \<open>\<^verbatim>\<open>if (Object.keys(nested).length) obj[key] = nested\<close>.\<close>

definition assignNested :: "string \<Rightarrow> caps \<Rightarrow> caps \<Rightarrow> caps" where
  "assignNested key nested obj = (if nested \<noteq> [] then AList.update key (CTree nested) obj else obj)"

section \<open>getFilterable\<close>

text \<open>
  A traversal with a visited set returns the visited set it leaves behind together with
  its value or the error it throws; \<open>None\<close> means that the recursion depth \<open>fuel\<close> was
  not enough.
\<close>

type_synonym 'a walk = "((js_error + 'a) \<times> ref set) option"

text \<open>
  The block
  \<^verbatim>\<open>if (!visited.has(x)) { const nested = getFilterable(x, visited);
       if (Object.keys(nested).length) filterable[key] = nested; } continue;\<close>
  where \<open>caught\<close> tells whether the block stands inside the \<^verbatim>\<open>try\<close> of the lazy branch,
  whose \<^verbatim>\<open>catch\<close> continues with the next entry.
\<close>

definition filterableDescend ::
  "(ref \<Rightarrow> ref set \<Rightarrow> caps walk) \<Rightarrow> bool \<Rightarrow> string \<Rightarrow> ref \<Rightarrow> caps \<Rightarrow> ref set \<Rightarrow> caps walk" where
  "filterableDescend rec caught key x acc vis =
     (if x \<in> vis then Some (Inr acc, vis)
      else (case rec x vis of
              None \<Rightarrow> None
            | Some (Inl e, vis') \<Rightarrow> (if caught then Some (Inr acc, vis') else Some (Inl e, vis'))
            | Some (Inr nested, vis') \<Rightarrow> Some (Inr (assignNested key nested acc), vis')))"

text \<open>The tail of the loop body, after the lazy branch (lines 179 to 201).\<close>

definition filterablePlain ::
  "(ref \<Rightarrow> ref set \<Rightarrow> caps walk) \<Rightarrow> store \<Rightarrow> string \<Rightarrow> ref \<Rightarrow> znode \<Rightarrow> caps \<Rightarrow> ref set \<Rightarrow> caps walk" where
  "filterablePlain rec st key v value acc vis =
     (if isZodObject value then filterableDescend rec False key v acc vis
      else (case arrayOfObject st value of
              Some t \<Rightarrow> filterableDescend rec False key t acc vis
            | None \<Rightarrow>
                (if hasFlag filterable value then Some (Inr (setNestedKey acc key), vis)
                 else Some (Inr acc, vis))))"

text \<open>One iteration of the loop over \<^verbatim>\<open>Object.entries(schema.shape)\<close> (lines 150 to 202).\<close>

definition filterableEntry ::
  "(ref \<Rightarrow> ref set \<Rightarrow> caps walk) \<Rightarrow> store \<Rightarrow> string \<times> ref \<Rightarrow> caps \<Rightarrow> ref set \<Rightarrow> caps walk" where
  "filterableEntry rec st entry acc vis =
     (case entry of (key, v) \<Rightarrow>
        (case deref st v of
           None \<Rightarrow> Some (Inr acc, vis)
         | Some value \<Rightarrow>
             (case zdef value of
                ZodLazy g \<Rightarrow>
                  (case g of
                     Throws \<Rightarrow> Some (Inr acc, vis)
                   | Returns l \<Rightarrow>
                       (case deref st l of
                          None \<Rightarrow> filterablePlain rec st key v value acc vis
                        | Some lazyValue \<Rightarrow>
                            (if isZodObject lazyValue then filterableDescend rec True key l acc vis
                             else (case arrayOfObject st lazyValue of
                                     Some t \<Rightarrow> filterableDescend rec True key t acc vis
                                   | None \<Rightarrow> filterablePlain rec st key v value acc vis))))
              | _ \<Rightarrow> filterablePlain rec st key v value acc vis)))"

fun filterableEntries ::
  "(ref \<Rightarrow> ref set \<Rightarrow> caps walk) \<Rightarrow> store \<Rightarrow> (string \<times> ref) list \<Rightarrow> caps \<Rightarrow> ref set \<Rightarrow> caps walk" where
  "filterableEntries rec st [] acc vis = Some (Inr acc, vis)"
| "filterableEntries rec st (entry # rest) acc vis =
     (case filterableEntry rec st entry acc vis of
        None \<Rightarrow> None
      | Some (Inl e, vis') \<Rightarrow> Some (Inl e, vis')
      | Some (Inr acc', vis') \<Rightarrow> filterableEntries rec st rest acc' vis')"

text \<open>
  \<^verbatim>\<open>getFilterable(schema, visited)\<close>. A \<open>schema\<close> that is not an object has no shape, and
  \<^verbatim>\<open>Object.entries(undefined)\<close> throws.
\<close>

fun getFilterable :: "nat \<Rightarrow> store \<Rightarrow> ref \<Rightarrow> ref set \<Rightarrow> caps walk" where
  "getFilterable 0 st schema vis = None"
| "getFilterable (Suc fuel) st schema vis =
     (if schema \<in> vis then Some (Inr [], vis)
      else (case deref st schema of
              None \<Rightarrow> Some (Inl TypeError, vis)
            | Some node \<Rightarrow>
                (case zdef node of
                   ZodObject shape \<Rightarrow>
                     filterableEntries (\<lambda>x vs. getFilterable fuel st x vs) st shape [] (insert schema vis)
                 | _ \<Rightarrow> Some (Inl TypeError, insert schema vis))))"

section \<open>getSortable and getQueryable\<close>

text \<open>
  Both functions keep no visited set and test \<^verbatim>\<open>value instanceof z.ZodObject\<close> only. For
  a falsy shape value, \<^verbatim>\<open>'isSortable' in value\<close> throws a \<^verbatim>\<open>TypeError\<close>. \<open>None\<close> means
  that the recursion depth \<open>fuel\<close> was not enough.
\<close>

type_synonym 'a run = "(js_error + 'a) option"

text \<open>\<^verbatim>\<open>const nested = get...(value); if (Object.keys(nested).length) obj[key] = nested;\<close>\<close>

definition plainDescend :: "(ref \<Rightarrow> caps run) \<Rightarrow> string \<Rightarrow> ref \<Rightarrow> caps \<Rightarrow> caps run" where
  "plainDescend rec key v acc =
     (case rec v of
        None \<Rightarrow> None
      | Some (Inl e) \<Rightarrow> Some (Inl e)
      | Some (Inr nested) \<Rightarrow> Some (Inr (assignNested key nested acc)))"

definition sortableEntry :: "(ref \<Rightarrow> caps run) \<Rightarrow> store \<Rightarrow> string \<times> ref \<Rightarrow> caps \<Rightarrow> caps run" where
  "sortableEntry rec st entry acc =
     (case entry of (key, v) \<Rightarrow>
        (case deref st v of
           None \<Rightarrow> Some (Inl TypeError)
         | Some value \<Rightarrow>
             (if isZodObject value then plainDescend rec key v acc
              else if hasFlag sortable value then Some (Inr (setNestedKey acc key))
              else Some (Inr acc))))"

text \<open>
  The leaf branch of \<^verbatim>\<open>getQueryable\<close> (lines 243 to 260). The test
  \<^verbatim>\<open>'path' in value && typeof value.path === 'function'\<close> holds for every node that has
  \<^verbatim>\<open>isQueryable\<close>, since \<^verbatim>\<open>extendZodType\<close> attaches both; an alias array is truthy even
  when empty.
\<close>

definition queryableLeaf :: "string \<Rightarrow> znode \<Rightarrow> caps \<Rightarrow> caps" where
  "queryableLeaf key value acc =
     (case ext value of
        None \<Rightarrow> acc
      | Some d \<Rightarrow>
          (if queryable d then
             (case path d of
                Some ps \<Rightarrow> fold (\<lambda>p a. setNestedKey a p) ps acc
              | None \<Rightarrow> setNestedKey acc key)
           else acc))"

definition queryableEntry :: "(ref \<Rightarrow> caps run) \<Rightarrow> store \<Rightarrow> string \<times> ref \<Rightarrow> caps \<Rightarrow> caps run" where
  "queryableEntry rec st entry acc =
     (case entry of (key, v) \<Rightarrow>
        (case deref st v of
           None \<Rightarrow> Some (Inl TypeError)
         | Some value \<Rightarrow>
             (if isZodObject value then plainDescend rec key v acc
              else Some (Inr (queryableLeaf key value acc)))))"

text \<open>The loop over the entries of a shape, with the loop body as a parameter.\<close>

fun plainEntries :: "(string \<times> ref \<Rightarrow> caps \<Rightarrow> caps run) \<Rightarrow> (string \<times> ref) list \<Rightarrow> caps \<Rightarrow> caps run" where
  "plainEntries body [] acc = Some (Inr acc)"
| "plainEntries body (entry # rest) acc =
     (case body entry acc of
        None \<Rightarrow> None
      | Some (Inl e) \<Rightarrow> Some (Inl e)
      | Some (Inr acc') \<Rightarrow> plainEntries body rest acc')"

fun getSortable :: "nat \<Rightarrow> store \<Rightarrow> ref \<Rightarrow> caps run" where
  "getSortable 0 st schema = None"
| "getSortable (Suc fuel) st schema =
     (case deref st schema of
        None \<Rightarrow> Some (Inl TypeError)
      | Some node \<Rightarrow>
          (case zdef node of
             ZodObject shape \<Rightarrow> plainEntries (sortableEntry (\<lambda>x. getSortable fuel st x) st) shape []
           | _ \<Rightarrow> Some (Inl TypeError)))"

fun getQueryable :: "nat \<Rightarrow> store \<Rightarrow> ref \<Rightarrow> caps run" where
  "getQueryable 0 st schema = None"
| "getQueryable (Suc fuel) st schema =
     (case deref st schema of
        None \<Rightarrow> Some (Inl TypeError)
      | Some node \<Rightarrow>
          (case zdef node of
             ZodObject shape \<Rightarrow> plainEntries (queryableEntry (\<lambda>x. getQueryable fuel st x) st) shape []
           | _ \<Rightarrow> Some (Inl TypeError)))"

section \<open>getPath\<close>

type_synonym paths = "(string \<times> string) list"

text \<open>\<^verbatim>\<open>segments.join('.')\<close> and \<^verbatim>\<open>s.split('.').pop()\<close>.\<close>

fun joinDot :: "string list \<Rightarrow> string" where
  "joinDot [] = []"
| "joinDot [x] = x"
| "joinDot (x # y # ys) = x @ ''.'' @ joinDot (y # ys)"

definition lastSegment :: "string \<Rightarrow> string" where
  "lastSegment s = rev (takeWhile (\<lambda>c. c \<noteq> CHR ''.'') (rev s))"

text \<open>
  The four \<^verbatim>\<open>Object.entries(nested).forEach\<close> blocks differ in the entries they write:
  \<open>own\<close> for \<^verbatim>\<open>paths[nestedKey] = nestedPath\<close> (object and array children), \<open>self\<close> for
  \<^verbatim>\<open>paths[nestedPath] = nestedPath\<close> (array children, lazy or not); all of them write
  \<^verbatim>\<open>paths[`${key}.${nestedKey.split('.').pop()}`] = nestedPath\<close>.
\<close>

definition mergeNested :: "bool \<Rightarrow> bool \<Rightarrow> string \<Rightarrow> paths \<Rightarrow> paths \<Rightarrow> paths" where
  "mergeNested own self key nested acc =
     fold (\<lambda>(nestedKey, nestedPath) p.
             let p1 = (if own then AList.update nestedKey nestedPath p else p);
                 p2 = AList.update (key @ ''.'' @ lastSegment nestedKey) nestedPath p1
             in (if self then AList.update nestedPath nestedPath p2 else p2))
          nested acc"

definition pathDescend ::
  "(ref \<Rightarrow> string list \<Rightarrow> ref set \<Rightarrow> paths walk) \<Rightarrow> bool \<Rightarrow> bool \<Rightarrow> bool \<Rightarrow> string \<Rightarrow> string list
     \<Rightarrow> ref \<Rightarrow> paths \<Rightarrow> ref set \<Rightarrow> paths walk" where
  "pathDescend rec caught own self key fullKeyPath x acc vis =
     (if x \<in> vis then Some (Inr acc, vis)
      else (case rec x fullKeyPath vis of
              None \<Rightarrow> None
            | Some (Inl e, vis') \<Rightarrow> (if caught then Some (Inr acc, vis') else Some (Inl e, vis'))
            | Some (Inr nested, vis') \<Rightarrow> Some (Inr (mergeNested own self key nested acc), vis')))"

text \<open>The leaf branch (lines 336 to 345).\<close>

definition pathLeaf :: "string list \<Rightarrow> string \<Rightarrow> znode \<Rightarrow> paths \<Rightarrow> paths" where
  "pathLeaf parentKey key value acc =
     (case ext value of
        None \<Rightarrow> AList.update key (joinDot (parentKey @ [key])) acc
      | Some d \<Rightarrow>
          (case path d of
             Some pathValue \<Rightarrow>
               AList.update (joinDot (parentKey @ [key])) (joinDot (parentKey @ pathValue)) acc
           | None \<Rightarrow> AList.update key (joinDot (parentKey @ [key])) acc))"

definition pathPlain ::
  "(ref \<Rightarrow> string list \<Rightarrow> ref set \<Rightarrow> paths walk) \<Rightarrow> store \<Rightarrow> string list \<Rightarrow> string \<Rightarrow> ref \<Rightarrow> znode
     \<Rightarrow> paths \<Rightarrow> ref set \<Rightarrow> paths walk" where
  "pathPlain rec st parentKey key v value acc vis =
     (if isZodObject value then pathDescend rec False True False key (parentKey @ [key]) v acc vis
      else (case arrayOfObject st value of
              Some t \<Rightarrow> pathDescend rec False True True key (parentKey @ [key]) t acc vis
            | None \<Rightarrow> Some (Inr (pathLeaf parentKey key value acc), vis)))"

definition pathEntry ::
  "(ref \<Rightarrow> string list \<Rightarrow> ref set \<Rightarrow> paths walk) \<Rightarrow> store \<Rightarrow> string list \<Rightarrow> string \<times> ref
     \<Rightarrow> paths \<Rightarrow> ref set \<Rightarrow> paths walk" where
  "pathEntry rec st parentKey entry acc vis =
     (case entry of (key, v) \<Rightarrow>
        (case deref st v of
           None \<Rightarrow> Some (Inr acc, vis)
         | Some value \<Rightarrow>
             (case zdef value of
                ZodLazy g \<Rightarrow>
                  (case g of
                     Throws \<Rightarrow> Some (Inr acc, vis)
                   | Returns l \<Rightarrow>
                       (case deref st l of
                          None \<Rightarrow> pathPlain rec st parentKey key v value acc vis
                        | Some lazyValue \<Rightarrow>
                            (if isZodObject lazyValue
                             then pathDescend rec True False False key (parentKey @ [key]) l acc vis
                             else (case arrayOfObject st lazyValue of
                                     Some t \<Rightarrow>
                                       pathDescend rec True False True key (parentKey @ [key]) t acc vis
                                   | None \<Rightarrow> pathPlain rec st parentKey key v value acc vis))))
              | _ \<Rightarrow> pathPlain rec st parentKey key v value acc vis)))"

fun pathEntries ::
  "(ref \<Rightarrow> string list \<Rightarrow> ref set \<Rightarrow> paths walk) \<Rightarrow> store \<Rightarrow> string list \<Rightarrow> (string \<times> ref) list
     \<Rightarrow> paths \<Rightarrow> ref set \<Rightarrow> paths walk" where
  "pathEntries rec st parentKey [] acc vis = Some (Inr acc, vis)"
| "pathEntries rec st parentKey (entry # rest) acc vis =
     (case pathEntry rec st parentKey entry acc vis of
        None \<Rightarrow> None
      | Some (Inl e, vis') \<Rightarrow> Some (Inl e, vis')
      | Some (Inr acc', vis') \<Rightarrow> pathEntries rec st parentKey rest acc' vis')"

fun getPath :: "nat \<Rightarrow> store \<Rightarrow> ref \<Rightarrow> string list \<Rightarrow> ref set \<Rightarrow> paths walk" where
  "getPath 0 st schema parentKey vis = None"
| "getPath (Suc fuel) st schema parentKey vis =
     (if schema \<in> vis then Some (Inr [], vis)
      else (case deref st schema of
              None \<Rightarrow> Some (Inl TypeError, vis)
            | Some node \<Rightarrow>
                (case zdef node of
                   ZodObject shape \<Rightarrow>
                     pathEntries (\<lambda>x pk vs. getPath fuel st x pk vs) st parentKey shape []
                       (insert schema vis)
                 | _ \<Rightarrow> Some (Inl TypeError, insert schema vis))))"

section \<open>Operator validation\<close>

text \<open>
  JavaScript values, as far as the validators and \<^verbatim>\<open>Object.keys\<close> tell them apart. \<^verbatim>\<open>NaN\<close>
  and invalid \<^verbatim>\<open>Date\<close> objects are outside this value model.
\<close>

datatype jsval =
    JUndefined
  | JNull
  | JBool bool
  | JNumber real
  | JString string
  | JDate
  | JArray "jsval list"
  | JObject "(string \<times> jsval) list"

text \<open>
  The zod schemas that the validator table is built from, and what \<^verbatim>\<open>schema.parse\<close> of the
  zod library accepts for them (it throws a \<^verbatim>\<open>ZodError\<close> on every other value).
\<close>

datatype zschema =
    ZString
  | ZNumber
  | ZBoolean
  | ZNull
  | ZDate
  | ZAny
  | ZUnion "zschema list"
  | ZArrayOf zschema
  | ZTuple "zschema list"
  | ZRefine zschema "jsval \<Rightarrow> bool"

fun zodParse :: "zschema \<Rightarrow> jsval \<Rightarrow> bool"
and zodParseTuple :: "zschema list \<Rightarrow> jsval list \<Rightarrow> bool" where
  "zodParse ZString v = (case v of JString s \<Rightarrow> True | _ \<Rightarrow> False)"
| "zodParse ZNumber v = (case v of JNumber n \<Rightarrow> True | _ \<Rightarrow> False)"
| "zodParse ZBoolean v = (case v of JBool b \<Rightarrow> True | _ \<Rightarrow> False)"
| "zodParse ZNull v = (case v of JNull \<Rightarrow> True | _ \<Rightarrow> False)"
| "zodParse ZDate v = (case v of JDate \<Rightarrow> True | _ \<Rightarrow> False)"
| "zodParse ZAny v = True"
| "zodParse (ZUnion options) v = list_ex (\<lambda>s. zodParse s v) options"
| "zodParse (ZArrayOf s) v = (case v of JArray xs \<Rightarrow> list_all (\<lambda>x. zodParse s x) xs | _ \<Rightarrow> False)"
| "zodParse (ZTuple items) v = (case v of JArray xs \<Rightarrow> zodParseTuple items xs | _ \<Rightarrow> False)"
| "zodParse (ZRefine s check) v = (zodParse s v \<and> check v)"
| "zodParseTuple [] [] = True"
| "zodParseTuple (s # items) (x # xs) = (zodParse s x \<and> zodParseTuple items xs)"
| "zodParseTuple _ _ = False"

text \<open>\<^verbatim>\<open>(val) => !val.includes('%')\<close>, which zod calls on values that passed \<^verbatim>\<open>z.string()\<close>.\<close>

definition noPercent :: "jsval \<Rightarrow> bool" where
  "noPercent v = (case v of JString s \<Rightarrow> CHR ''%'' \<notin> set s | _ \<Rightarrow> True)"

definition scalarOrDate :: zschema where
  "scalarOrDate = ZUnion [ZString, ZNumber, ZBoolean, ZNull, ZDate]"

definition ordered :: zschema where
  "ordered = ZUnion [ZNumber, ZDate, ZString]"

definition sequelizeOperatorValidators :: "(string \<times> zschema) list" where
  "sequelizeOperatorValidators =
     [(''eq'', scalarOrDate),
      (''ne'', scalarOrDate),
      (''gt'', ordered),
      (''gte'', ordered),
      (''lt'', ordered),
      (''lte'', ordered),
      (''in'', ZArrayOf ZAny),
      (''notIn'', ZArrayOf ZAny),
      (''like'', ZRefine ZString noPercent),
      (''notLike'', ZRefine ZString noPercent),
      (''iLike'', ZRefine ZString noPercent),
      (''notILike'', ZRefine ZString noPercent),
      (''between'', ZTuple [ZAny, ZAny]),
      (''notBetween'', ZTuple [ZAny, ZAny]),
      (''is'', ZUnion [ZNull, ZBoolean]),
      (''not'', ZUnion [ZString, ZNumber, ZBoolean, ZNull]),
      (''or'', ZArrayOf ZAny),
      (''and'', ZArrayOf ZAny),
      (''startsWith'', ZString),
      (''endsWith'', ZString),
      (''substring'', ZString)]"

text \<open>
  \<^verbatim>\<open>sequelizeOperatorValidators[name]\<close> is a property access on an object literal: a name that
  is not a key of the table is looked up in \<^verbatim>\<open>Object.prototype\<close>, whose properties are
  functions (and, for \<^verbatim>\<open>__proto__\<close>, an object), all truthy and none with a \<^verbatim>\<open>parse\<close> method.
\<close>

definition objectPrototypeKeys :: "string list" where
  "objectPrototypeKeys =
     [''constructor'', ''hasOwnProperty'', ''isPrototypeOf'', ''propertyIsEnumerable'',
      ''toLocaleString'', ''toString'', ''valueOf'', ''__proto__'',
      ''__defineGetter__'', ''__defineSetter__'', ''__lookupGetter__'', ''__lookupSetter__'']"

datatype property = Validator zschema | Inherited

definition operatorProperty :: "string \<Rightarrow> property option" where
  "operatorProperty name =
     (case map_of sequelizeOperatorValidators name of
        Some schema \<Rightarrow> Some (Validator schema)
      | None \<Rightarrow> (if name \<in> set objectPrototypeKeys then Some Inherited else None))"

text \<open>
  The result tuples: \<^verbatim>\<open>[true, null]\<close> and \<^verbatim>\<open>[null, err]\<close>, where \<^verbatim>\<open>err\<close> is the \<^verbatim>\<open>ZodError\<close>
  that \<^verbatim>\<open>parse\<close> threw or the string \<^verbatim>\<open>`Invalid key: ${key}`\<close>. A thrown error is the left
  summand of the result.
\<close>

datatype verror = ZodError | InvalidKey string

datatype vresult = Valid | Invalid verror

text \<open>
  \<^verbatim>\<open>validateOperatorInput(operator, value)\<close>. For an inherited property \<^verbatim>\<open>schema.parse\<close> is
  not a function: the call throws a \<^verbatim>\<open>TypeError\<close> inside the \<^verbatim>\<open>try\<close>, and the handler
  throws again on \<^verbatim>\<open>err.errors.map\<close>, a \<^verbatim>\<open>TypeError\<close> having no \<^verbatim>\<open>errors\<close>. The
  \<^verbatim>\<open>console.error\<close> output is not modelled.
\<close>

definition validateOperatorInput :: "string \<Rightarrow> jsval \<Rightarrow> js_error + vresult" where
  "validateOperatorInput operator v =
     (case operatorProperty operator of
        None \<Rightarrow> Inl (UnsupportedOperator operator)
      | Some Inherited \<Rightarrow> Inl TypeError
      | Some (Validator schema) \<Rightarrow> (if zodParse schema v then Inr Valid else Inr (Invalid ZodError)))"

section \<open>Filter validation\<close>

text \<open>Decimal index names, for \<^verbatim>\<open>Object.keys\<close> of arrays and strings.\<close>

fun showNat :: "nat \<Rightarrow> string" where
  "showNat n = (if n < 10 then [''0123456789'' ! n] else showNat (n div 10) @ [''0123456789'' ! (n mod 10)])"

text \<open>\<^verbatim>\<open>Object.keys(value)\<close>, which throws on \<^verbatim>\<open>null\<close> and \<^verbatim>\<open>undefined\<close>.\<close>

definition objectKeys :: "jsval \<Rightarrow> js_error + string list" where
  "objectKeys v =
     (case v of
        JUndefined \<Rightarrow> Inl TypeError
      | JNull \<Rightarrow> Inl TypeError
      | JBool b \<Rightarrow> Inr []
      | JNumber n \<Rightarrow> Inr []
      | JString s \<Rightarrow> Inr (map showNat [0..<length s])
      | JDate \<Rightarrow> Inr []
      | JArray xs \<Rightarrow> Inr (map showNat [0..<length xs])
      | JObject kvs \<Rightarrow> Inr (map fst kvs))"

text \<open>
  \<^verbatim>\<open>nestedToDotObject(obj)\<close>: one level of nesting is flattened. A \<^verbatim>\<open>Date\<close> is a non-null,
  non-array object without enumerable keys and adds nothing. Field names are ordinary
  names (not \<^verbatim>\<open>hasOwnProperty\<close>, which would shadow the method called on the result).
\<close>

definition nestedToDotObject :: "(string \<times> jsval) list \<Rightarrow> (string \<times> jsval) list" where
  "nestedToDotObject obj =
     fold (\<lambda>(key, v) result.
             (case v of
                JObject kvs \<Rightarrow>
                  fold (\<lambda>(nestedKey, nv) r. AList.update (key @ ''.'' @ nestedKey) nv r) kvs result
              | JDate \<Rightarrow> result
              | _ \<Rightarrow> AList.update key v result))
          obj []"

definition hasOwnProperty :: "(string \<times> 'a) list \<Rightarrow> string \<Rightarrow> bool" where
  "hasOwnProperty obj key = (key \<in> set (map fst obj))"

text \<open>
  The callback of \<^verbatim>\<open>Object.keys(value).forEach\<close> (lines 79 to 83): what it returns for a
  key. \<^verbatim>\<open>forEach\<close> discards what its callback returns.
\<close>

definition nestedKeyCallback :: "string \<Rightarrow> vresult option" where
  "nestedKeyCallback k = (if operatorProperty k = None then Some (Invalid (InvalidKey k)) else None)"

definition forEach :: "('a \<Rightarrow> 'b) \<Rightarrow> 'a list \<Rightarrow> unit" where
  "forEach callback xs = (case map callback xs of _ \<Rightarrow> ())"

text \<open>The loop of \<^verbatim>\<open>validateOptions\<close> over \<^verbatim>\<open>Object.entries(clientFilter)\<close>.\<close>

fun validateEntries :: "(string \<times> jsval) list \<Rightarrow> (string \<times> jsval) list \<Rightarrow> js_error + vresult" where
  "validateEntries nestedFilterMap [] = Inr Valid"
| "validateEntries nestedFilterMap ((key, v) # rest) =
     (if \<not> hasOwnProperty nestedFilterMap key \<and> operatorProperty key = None
      then Inr (Invalid (InvalidKey key))
      else if operatorProperty key \<noteq> None then
        (case validateOperatorInput key v of
           Inl e \<Rightarrow> Inl e
         | Inr (Invalid err) \<Rightarrow> Inr (Invalid err)
         | Inr Valid \<Rightarrow> validateEntries nestedFilterMap rest)
      else
        (case objectKeys v of
           Inl e \<Rightarrow> Inl e
         | Inr ks \<Rightarrow>
             (if length ks > 0 then
                (let discarded = forEach nestedKeyCallback ks in validateEntries nestedFilterMap rest)
              else if \<not> hasOwnProperty nestedFilterMap key then Inr (Invalid (InvalidKey key))
              else validateEntries nestedFilterMap rest)))"

definition validateOptions :: "(string \<times> jsval) list \<Rightarrow> (string \<times> jsval) list \<Rightarrow> js_error + vresult" where
  "validateOptions clientFilter filterMap = validateEntries (nestedToDotObject filterMap) clientFilter"

section \<open>The operator vocabulary of the specification\<close>

text \<open>
  The specification lists the operators and, for each, the shape of the operand it
  expects. \<open>conformsTo\<close> follows that table, not the code.
\<close>

definition operatorVocabulary :: "string list" where
  "operatorVocabulary =
     [''eq'', ''ne'', ''gt'', ''gte'', ''lt'', ''lte'', ''in'', ''notIn'', ''like'', ''notLike'',
      ''iLike'', ''notILike'', ''between'', ''notBetween'', ''is'', ''not'', ''or'', ''and'',
      ''startsWith'', ''endsWith'', ''substring'']"

definition isString :: "jsval \<Rightarrow> bool" where "isString v = (case v of JString s \<Rightarrow> True | _ \<Rightarrow> False)"
definition isNumber :: "jsval \<Rightarrow> bool" where "isNumber v = (case v of JNumber n \<Rightarrow> True | _ \<Rightarrow> False)"
definition isBoolean :: "jsval \<Rightarrow> bool" where "isBoolean v = (case v of JBool b \<Rightarrow> True | _ \<Rightarrow> False)"
definition isNull :: "jsval \<Rightarrow> bool" where "isNull v = (v = JNull)"
definition isDate :: "jsval \<Rightarrow> bool" where "isDate v = (v = JDate)"
definition isArray :: "jsval \<Rightarrow> bool" where "isArray v = (case v of JArray xs \<Rightarrow> True | _ \<Rightarrow> False)"
definition isPair :: "jsval \<Rightarrow> bool" where "isPair v = (case v of JArray xs \<Rightarrow> length xs = 2 | _ \<Rightarrow> False)"
definition isStringWithoutPercent :: "jsval \<Rightarrow> bool" where
  "isStringWithoutPercent v = (case v of JString s \<Rightarrow> CHR ''%'' \<notin> set s | _ \<Rightarrow> False)"

definition conformsTo :: "string \<Rightarrow> jsval \<Rightarrow> bool" where
  "conformsTo operator v =
     (if operator \<in> {''eq'', ''ne''} then isString v \<or> isNumber v \<or> isBoolean v \<or> isNull v \<or> isDate v
      else if operator \<in> {''gt'', ''gte'', ''lt'', ''lte''} then isNumber v \<or> isDate v \<or> isString v
      else if operator \<in> {''in'', ''notIn''} then isArray v
      else if operator \<in> {''like'', ''notLike'', ''iLike'', ''notILike''} then isStringWithoutPercent v
      else if operator \<in> {''between'', ''notBetween''} then isPair v
      else if operator = ''is'' then isNull v \<or> isBoolean v
      else if operator = ''not'' then isString v \<or> isNumber v \<or> isBoolean v \<or> isNull v
      else if operator \<in> {''or'', ''and''} then isArray v
      else if operator \<in> {''startsWith'', ''endsWith'', ''substring''} then isString v
      else False)"


section \<open>Auxiliary notions\<close>

text \<open>
  A recursive call \<open>rec\<close> is \<open>growing\<close> above a visited set when, from any larger set, it
  returns and hands back a set that contains the one it was given.
\<close>

definition growing :: "ref set \<Rightarrow> (ref \<Rightarrow> ref set \<Rightarrow> 'a walk) \<Rightarrow> bool" where
  "growing V rec = (\<forall>x vs. V \<subseteq> vs \<longrightarrow> (\<exists>res vs'. rec x vs = Some (res, vs') \<and> vs \<subseteq> vs'))"

text \<open>A recursive call is safe on objects when it throws only for nodes that are no objects.\<close>

definition objectSafe :: "store \<Rightarrow> (ref \<Rightarrow> ref set \<Rightarrow> 'a walk) \<Rightarrow> bool" where
  "objectSafe st rec = (\<forall>x vs e vs'. rec x vs = Some (Inl e, vs') \<longrightarrow> \<not> refIsZodObject st x)"

definition objectSafeP :: "store \<Rightarrow> (ref \<Rightarrow> string list \<Rightarrow> ref set \<Rightarrow> 'a walk) \<Rightarrow> bool" where
  "objectSafeP st rec = (\<forall>x pk vs e vs'. rec x pk vs = Some (Inl e, vs') \<longrightarrow> \<not> refIsZodObject st x)"





text \<open>
  The alias names that a child of an object writes into the result of \<open>getQueryable\<close>: the
  path segments of a queryable node that is no object.
\<close>

definition declaredAliases :: "description \<Rightarrow> string set" where
  "declaredAliases d = (if queryable d then (case path d of Some aliases \<Rightarrow> set aliases | None \<Rightarrow> {}) else {})"

definition queryableAliases :: "store \<Rightarrow> ref \<Rightarrow> string set" where
  "queryableAliases st c =
     (case deref st c of
        None \<Rightarrow> {}
      | Some value \<Rightarrow>
          (if isZodObject value then {}
           else (case ext value of None \<Rightarrow> {} | Some d \<Rightarrow> declaredAliases d)))"

text \<open>
  The pruning invariant of a capability tree: every value is \<^verbatim>\<open>true\<close> or a nested tree
  that is not empty and is pruned itself.
\<close>

fun prunedCap :: "cap \<Rightarrow> bool" where
  "prunedCap CTrue = True"
| "prunedCap (CTree entries) = (entries \<noteq> [] \<and> (\<forall>(k, v) \<in> set entries. prunedCap v))"

definition prunedCaps :: "caps \<Rightarrow> bool" where
  "prunedCaps entries = (\<forall>(k, v) \<in> set entries. prunedCap v)"

text \<open>
  The composite children of the specification, for \<open>getFilterable\<close>: the object node
  that the traversal would descend into for a child that is an object, an array of
  objects, or a lazy node resolving to one of these.
\<close>

definition filterableTarget :: "store \<Rightarrow> ref \<Rightarrow> ref option" where
  "filterableTarget st c =
     (case deref st c of
        None \<Rightarrow> None
      | Some value \<Rightarrow>
          (case zdef value of
             ZodObject shape \<Rightarrow> Some c
           | ZodArray t \<Rightarrow> (if refIsZodObject st t then Some t else None)
           | ZodLazy g \<Rightarrow>
               (case g of
                  Throws \<Rightarrow> None
                | Returns l \<Rightarrow>
                    (case deref st l of
                       None \<Rightarrow> None
                     | Some lazyValue \<Rightarrow>
                         (if isZodObject lazyValue then Some l else arrayOfObject st lazyValue)))
           | ZodOther \<Rightarrow> None))"

section \<open>Example schemas\<close>

text \<open>
  \<^verbatim>\<open>const name = z.string().filterable().sortable().queryable();
  const User = z.object({ name, company: z.lazy(() => Company) });
  const Company = z.object({ title: name, owner: z.lazy(() => User) });\<close>
\<close>

definition allFlags :: description where
  "allFlags = \<lparr>filterable = True, sortable = True, queryable = True, path = None\<rparr>"

definition noFlags :: description where
  "noFlags = \<lparr>filterable = False, sortable = False, queryable = False, path = None\<rparr>"


text \<open>
  \<^verbatim>\<open>z.object({ a: name, broken: z.lazy(() => { throw new Error() }), b: name })\<close>
\<close>

definition brokenSchema :: store where
  "brokenSchema =
     [\<lparr>zdef = ZodOther, ext = Some allFlags\<rparr>,
      \<lparr>zdef = ZodLazy Throws, ext = None\<rparr>,
      \<lparr>zdef = ZodObject [(''a'', 0), (''broken'', 1), (''b'', 0)], ext = Some noFlags\<rparr>]"

text \<open>
  \<^verbatim>\<open>z.object({ mail: z.string().path(['email']), name: z.string() })\<close> and
  \<^verbatim>\<open>z.object({ a: z.object({ b: z.object({ leaf: z.string() }) }) })\<close>
\<close>

definition aliasSchema :: store where
  "aliasSchema =
     [\<lparr>zdef = ZodOther, ext = Some (noFlags\<lparr>path := Some [''email'']\<rparr>)\<rparr>,
      \<lparr>zdef = ZodOther, ext = Some noFlags\<rparr>,
      \<lparr>zdef = ZodObject [(''mail'', 0), (''name'', 1)], ext = Some noFlags\<rparr>]"

definition deepSchema :: store where
  "deepSchema =
     [\<lparr>zdef = ZodOther, ext = Some noFlags\<rparr>,
      \<lparr>zdef = ZodObject [(''leaf'', 0)], ext = Some noFlags\<rparr>,
      \<lparr>zdef = ZodObject [(''b'', 1)], ext = Some noFlags\<rparr>,
      \<lparr>zdef = ZodObject [(''a'', 2)], ext = Some noFlags\<rparr>]"

text \<open>
  \<^verbatim>\<open>z.object({ mail: z.string().queryable().path(['email']),
             email: z.object({ x: z.string().queryable() }),
             nick: z.string().queryable().path(['mail']) })\<close> and
  \<^verbatim>\<open>z.object({ name: z.string().queryable(), mail: z.string().queryable().path(['email']) })\<close>
\<close>

definition aliasClash :: store where
  "aliasClash =
     [\<lparr>zdef = ZodOther, ext = Some (noFlags\<lparr>queryable := True, path := Some [''email'']\<rparr>)\<rparr>,
      \<lparr>zdef = ZodOther, ext = Some (noFlags\<lparr>queryable := True\<rparr>)\<rparr>,
      \<lparr>zdef = ZodObject [(''x'', 1)], ext = Some noFlags\<rparr>,
      \<lparr>zdef = ZodOther, ext = Some (noFlags\<lparr>queryable := True, path := Some [''mail'']\<rparr>)\<rparr>,
      \<lparr>zdef = ZodObject [(''mail'', 0), (''email'', 2), (''nick'', 3)], ext = Some noFlags\<rparr>]"

definition aliasSchemaQ :: store where
  "aliasSchemaQ =
     [\<lparr>zdef = ZodOther, ext = Some (noFlags\<lparr>queryable := True\<rparr>)\<rparr>,
      \<lparr>zdef = ZodOther, ext = Some (noFlags\<lparr>queryable := True, path := Some [''email'']\<rparr>)\<rparr>,
      \<lparr>zdef = ZodObject [(''name'', 0), (''mail'', 1)], ext = Some noFlags\<rparr>]"

text \<open>
  \<^verbatim>\<open>const leaf = z.string().filterable().sortable().queryable();
  z.object({ plain: z.object({ a: leaf }), items: z.array(z.object({ b: leaf })),
             later: z.lazy(() => z.object({ c: leaf })) })\<close> (the getter returning one
  object, built beforehand), and
  \<^verbatim>\<open>z.object({ profile: z.object({ bio: z.string() }),
             nick: z.string().queryable().path(['profile']) })\<close>
\<close>

definition compositeSchema :: store where
  "compositeSchema =
     [\<lparr>zdef = ZodOther, ext = Some allFlags\<rparr>,
      \<lparr>zdef = ZodObject [(''a'', 0)], ext = Some noFlags\<rparr>,
      \<lparr>zdef = ZodObject [(''b'', 0)], ext = Some noFlags\<rparr>,
      \<lparr>zdef = ZodArray 2, ext = Some noFlags\<rparr>,
      \<lparr>zdef = ZodObject [(''c'', 0)], ext = Some noFlags\<rparr>,
      \<lparr>zdef = ZodLazy (Returns 4), ext = None\<rparr>,
      \<lparr>zdef = ZodObject [(''plain'', 1), (''items'', 3), (''later'', 5)], ext = Some noFlags\<rparr>]"

definition aliasOverEmpty :: store where
  "aliasOverEmpty =
     [\<lparr>zdef = ZodOther, ext = Some noFlags\<rparr>,
      \<lparr>zdef = ZodObject [(''bio'', 0)], ext = Some noFlags\<rparr>,
      \<lparr>zdef = ZodOther, ext = Some (noFlags\<lparr>queryable := True, path := Some [''profile'']\<rparr>)\<rparr>,
      \<lparr>zdef = ZodObject [(''profile'', 1), (''nick'', 2)], ext = Some noFlags\<rparr>]"

text \<open>
  \<^verbatim>\<open>const leaf = z.string().filterable().sortable().queryable();
  z.object({ plain: z.object({ a: leaf }), items: z.array(z.object({ b: leaf })) })\<close> and
  \<^verbatim>\<open>z.object({ f: z.string().filterable(), s: z.string().sortable(), q: z.string().queryable() })\<close>
\<close>

definition arraySchema :: store where
  "arraySchema =
     [\<lparr>zdef = ZodOther, ext = Some allFlags\<rparr>,
      \<lparr>zdef = ZodObject [(''a'', 0)], ext = Some noFlags\<rparr>,
      \<lparr>zdef = ZodObject [(''b'', 0)], ext = Some noFlags\<rparr>,
      \<lparr>zdef = ZodArray 2, ext = Some noFlags\<rparr>,
      \<lparr>zdef = ZodObject [(''plain'', 1), (''items'', 3)], ext = Some noFlags\<rparr>]"

definition flagSchema :: store where
  "flagSchema =
     [\<lparr>zdef = ZodOther, ext = Some (noFlags\<lparr>filterable := True\<rparr>)\<rparr>,
      \<lparr>zdef = ZodOther, ext = Some (noFlags\<lparr>sortable := True\<rparr>)\<rparr>,
      \<lparr>zdef = ZodOther, ext = Some (noFlags\<lparr>queryable := True\<rparr>)\<rparr>,
      \<lparr>zdef = ZodObject [(''f'', 0), (''s'', 1), (''q'', 2)], ext = Some noFlags\<rparr>]"

text \<open>
  Schemas for \<open>getPath\<close>:
  \<^verbatim>\<open>z.object({ name: z.string(), company: z.object({ name: z.string() }) })\<close>,
  \<^verbatim>\<open>z.object({ a: z.object({ b: z.object({ mail: z.string().path(['email']) }) }) })\<close>,
  \<^verbatim>\<open>z.object({ items: z.array(z.object({ mail: z.string().path(['email']) })) })\<close>,
  the schema of the README,
  \<^verbatim>\<open>z.object({ id: z.number(), username: z.string(), email: z.string().email(),
             profile: z.object({ firstName: z.string(), lastName: z.string() }) })\<close>, and
  \<^verbatim>\<open>z.object({ later: z.lazy(() => z.object({ leaf: z.string() })),
             list: z.lazy(() => z.array(z.object({ mail: z.string().path(['email']) }))) })\<close>
  (each getter returning one object, built beforehand).
\<close>

definition nameClash :: store where
  "nameClash =
     [\<lparr>zdef = ZodOther, ext = Some noFlags\<rparr>,
      \<lparr>zdef = ZodOther, ext = Some noFlags\<rparr>,
      \<lparr>zdef = ZodObject [(''name'', 1)], ext = Some noFlags\<rparr>,
      \<lparr>zdef = ZodObject [(''name'', 0), (''company'', 2)], ext = Some noFlags\<rparr>]"

definition deepAlias :: store where
  "deepAlias =
     [\<lparr>zdef = ZodOther, ext = Some (noFlags\<lparr>path := Some [''email'']\<rparr>)\<rparr>,
      \<lparr>zdef = ZodObject [(''mail'', 0)], ext = Some noFlags\<rparr>,
      \<lparr>zdef = ZodObject [(''b'', 1)], ext = Some noFlags\<rparr>,
      \<lparr>zdef = ZodObject [(''a'', 2)], ext = Some noFlags\<rparr>]"

definition arrayAlias :: store where
  "arrayAlias =
     [\<lparr>zdef = ZodOther, ext = Some (noFlags\<lparr>path := Some [''email'']\<rparr>)\<rparr>,
      \<lparr>zdef = ZodObject [(''mail'', 0)], ext = Some noFlags\<rparr>,
      \<lparr>zdef = ZodArray 1, ext = Some noFlags\<rparr>,
      \<lparr>zdef = ZodObject [(''items'', 2)], ext = Some noFlags\<rparr>]"

definition readmeSchema :: store where
  "readmeSchema =
     [\<lparr>zdef = ZodOther, ext = Some noFlags\<rparr>,
      \<lparr>zdef = ZodObject [(''firstName'', 0), (''lastName'', 0)], ext = Some noFlags\<rparr>,
      \<lparr>zdef = ZodObject [(''id'', 0), (''username'', 0), (''email'', 0), (''profile'', 1)], ext = Some noFlags\<rparr>]"

definition lazyPaths :: store where
  "lazyPaths =
     [\<lparr>zdef = ZodOther, ext = Some noFlags\<rparr>,
      \<lparr>zdef = ZodObject [(''leaf'', 0)], ext = Some noFlags\<rparr>,
      \<lparr>zdef = ZodLazy (Returns 1), ext = None\<rparr>,
      \<lparr>zdef = ZodOther, ext = Some (noFlags\<lparr>path := Some [''email'']\<rparr>)\<rparr>,
      \<lparr>zdef = ZodObject [(''mail'', 3)], ext = Some noFlags\<rparr>,
      \<lparr>zdef = ZodArray 4, ext = Some noFlags\<rparr>,
      \<lparr>zdef = ZodLazy (Returns 5), ext = None\<rparr>,
      \<lparr>zdef = ZodObject [(''later'', 2), (''list'', 6)], ext = Some noFlags\<rparr>]"

section \<open>Termination of the traversals\<close>

lemma filterableDescend_total:
  assumes "growing V rec" and "V \<subseteq> vis"
  shows "\<exists>res vis'. filterableDescend rec caught key x acc vis = Some (res, vis') \<and> vis \<subseteq> vis'"
proof (cases "x \<in> vis")
  case True
  then show ?thesis by (simp add: filterableDescend_def)
next
  case False
  from assms obtain res vs' where r: "rec x vis = Some (res, vs')" "vis \<subseteq> vs'"
    unfolding growing_def by blast
  with False show ?thesis by (cases res) (simp_all add: filterableDescend_def)
qed

lemma filterablePlain_total:
  assumes "growing V rec" and "V \<subseteq> vis"
  shows "\<exists>res vis'. filterablePlain rec st key v value acc vis = Some (res, vis') \<and> vis \<subseteq> vis'"
  using filterableDescend_total [OF assms]
  by (simp add: filterablePlain_def split: option.split)

lemma filterableEntry_total:
  assumes "growing V rec" and "V \<subseteq> vis"
  shows "\<exists>res vis'. filterableEntry rec st entry acc vis = Some (res, vis') \<and> vis \<subseteq> vis'"
  using filterableDescend_total [OF assms] filterablePlain_total [OF assms]
  by (simp add: filterableEntry_def split: prod.split option.split zdef.split getter.split)

lemma filterableEntries_total:
  assumes "growing V rec" and "V \<subseteq> vis"
  shows "\<exists>res vis'. filterableEntries rec st entries acc vis = Some (res, vis') \<and> vis \<subseteq> vis'"
  using assms(2)
proof (induction entries arbitrary: acc vis)
  case Nil
  then show ?case by simp
next
  case (Cons entry rest)
  from filterableEntry_total [OF assms(1) Cons.prems]
  obtain res vis1 where e: "filterableEntry rec st entry acc vis = Some (res, vis1)" "vis \<subseteq> vis1"
    by blast
  show ?case
  proof (cases res)
    case (Inl err)
    with e show ?thesis by simp
  next
    case (Inr acc1)
    from Cons.prems e have "V \<subseteq> vis1" by blast
    from Cons.IH [OF this, of acc1] e Inr show ?thesis by auto
  qed
qed

lemma card_unvisited:
  assumes "schema \<notin> vis" "schema < length st" "insert schema vis \<subseteq> vs"
  shows "card ({..<length st} - vs) < card ({..<length st} - vis)"
proof -
  have "{..<length st} - vs \<subset> {..<length st} - vis" using assms by auto
  then show ?thesis by (intro psubset_card_mono) simp_all
qed

lemma getFilterable_total:
  "card ({..<length st} - vis) < fuel \<Longrightarrow>
   \<exists>res vis'. getFilterable fuel st schema vis = Some (res, vis') \<and> vis \<subseteq> vis'"
proof (induction fuel arbitrary: schema vis)
  case 0
  then show ?case by simp
next
  case (Suc fuel)
  show ?case
  proof (cases "schema \<in> vis \<or> deref st schema = None")
    case True
    then show ?thesis by auto
  next
    case False
    then have new: "schema \<notin> vis" and inside: "schema < length st"
      by (auto simp: deref_def split: if_splits)
    have "growing (insert schema vis) (\<lambda>x vs. getFilterable fuel st x vs)"
      unfolding growing_def
    proof (intro allI impI)
      fix x vs assume "insert schema vis \<subseteq> vs"
      from card_unvisited [OF new inside this] Suc.prems
      have "card ({..<length st} - vs) < fuel" by linarith
      then show "\<exists>res vs'. getFilterable fuel st x vs = Some (res, vs') \<and> vs \<subseteq> vs'" by (rule Suc.IH)
    qed
    then have loop: "\<exists>res vis'. filterableEntries (\<lambda>x vs. getFilterable fuel st x vs) st shape [] (insert schema vis)
         = Some (res, vis') \<and> insert schema vis \<subseteq> vis'" for shape
      by (rule filterableEntries_total) simp
    from False obtain node where node: "deref st schema = Some node" by auto
    show ?thesis
    proof (cases "zdef node")
      case (ZodObject shape)
      with loop [of shape] new node show ?thesis by auto
    qed (use new node in auto)
  qed
qed


lemma pathDescend_total:
  assumes "\<And>pk. growing V (\<lambda>x vs. rec x pk vs)" and "V \<subseteq> vis"
  shows "\<exists>res vis'. pathDescend rec caught own self key fkp x acc vis = Some (res, vis') \<and> vis \<subseteq> vis'"
proof (cases "x \<in> vis")
  case True
  then show ?thesis by (simp add: pathDescend_def)
next
  case False
  from assms(1) [of fkp] assms(2) obtain res vs' where r: "rec x fkp vis = Some (res, vs')" "vis \<subseteq> vs'"
    unfolding growing_def by blast
  with False show ?thesis by (cases res) (simp_all add: pathDescend_def)
qed

lemma pathPlain_total:
  assumes "\<And>pk. growing V (\<lambda>x vs. rec x pk vs)" and "V \<subseteq> vis"
  shows "\<exists>res vis'. pathPlain rec st pk key v value acc vis = Some (res, vis') \<and> vis \<subseteq> vis'"
  using pathDescend_total [of V rec, OF assms]
  by (simp add: pathPlain_def split: option.split)

lemma pathEntry_total:
  assumes "\<And>pk. growing V (\<lambda>x vs. rec x pk vs)" and "V \<subseteq> vis"
  shows "\<exists>res vis'. pathEntry rec st pk entry acc vis = Some (res, vis') \<and> vis \<subseteq> vis'"
  using pathDescend_total [of V rec, OF assms] pathPlain_total [of V rec, OF assms]
  by (simp add: pathEntry_def split: prod.split option.split zdef.split getter.split)

lemma pathEntries_total:
  assumes "\<And>pk. growing V (\<lambda>x vs. rec x pk vs)" and "V \<subseteq> vis"
  shows "\<exists>res vis'. pathEntries rec st pk entries acc vis = Some (res, vis') \<and> vis \<subseteq> vis'"
  using assms(2)
proof (induction entries arbitrary: acc vis)
  case Nil
  then show ?case by simp
next
  case (Cons entry rest)
  from pathEntry_total [of V rec, OF assms(1) Cons.prems]
  obtain res vis1 where e: "pathEntry rec st pk entry acc vis = Some (res, vis1)" "vis \<subseteq> vis1"
    by blast
  show ?case
  proof (cases res)
    case (Inl err)
    with e show ?thesis by simp
  next
    case (Inr acc1)
    from Cons.prems e have "V \<subseteq> vis1" by blast
    from Cons.IH [OF this, of acc1] e Inr show ?thesis by auto
  qed
qed

lemma getPath_total:
  "card ({..<length st} - vis) < fuel \<Longrightarrow>
   \<exists>res vis'. getPath fuel st schema pk vis = Some (res, vis') \<and> vis \<subseteq> vis'"
proof (induction fuel arbitrary: schema pk vis)
  case 0
  then show ?case by simp
next
  case (Suc fuel)
  show ?case
  proof (cases "schema \<in> vis \<or> deref st schema = None")
    case True
    then show ?thesis by auto
  next
    case False
    then have new: "schema \<notin> vis" and inside: "schema < length st"
      by (auto simp: deref_def split: if_splits)
    have "growing (insert schema vis) (\<lambda>x vs. getPath fuel st x pk' vs)" for pk'
      unfolding growing_def
    proof (intro allI impI)
      fix x vs assume "insert schema vis \<subseteq> vs"
      from card_unvisited [OF new inside this] Suc.prems
      have "card ({..<length st} - vs) < fuel" by linarith
      then show "\<exists>res vs'. getPath fuel st x pk' vs = Some (res, vs') \<and> vs \<subseteq> vs'" by (rule Suc.IH)
    qed
    then have loop: "\<exists>res vis'. pathEntries (\<lambda>x pk vs. getPath fuel st x pk vs) st pk shape [] (insert schema vis)
         = Some (res, vis') \<and> insert schema vis \<subseteq> vis'" for shape
      by (intro pathEntries_total [where V = "insert schema vis"]) simp_all
    from False obtain node where node: "deref st schema = Some node" by auto
    show ?thesis
    proof (cases "zdef node")
      case (ZodObject shape)
      with loop [of shape] new node show ?thesis by auto
    qed (use new node in auto)
  qed
qed

lemma filterableDescend_safe:
  assumes "objectSafe st rec" and "caught \<or> refIsZodObject st x"
  shows "filterableDescend rec caught key x acc vis \<noteq> Some (Inl e, vis')"
  using assms unfolding objectSafe_def filterableDescend_def
  by (auto split: option.splits sum.splits prod.splits)

lemma arrayOfObject_ref: "arrayOfObject st value = Some t \<Longrightarrow> refIsZodObject st t"
  by (auto simp: arrayOfObject_def split: zdef.splits if_splits)

lemma filterablePlain_safe:
  assumes "objectSafe st rec" and "deref st v = Some value"
  shows "filterablePlain rec st key v value acc vis \<noteq> Some (Inl e, vis')"
  using assms filterableDescend_safe [OF assms(1), of False]
  by (auto simp: filterablePlain_def refIsZodObject_def dest: arrayOfObject_ref split: option.splits)

lemma filterableEntry_safe:
  assumes "objectSafe st rec"
  shows "filterableEntry rec st entry acc vis \<noteq> Some (Inl e, vis')"
  using filterableDescend_safe [OF assms, of True] filterablePlain_safe [OF assms]
  by (auto simp: filterableEntry_def split: prod.splits option.splits zdef.splits getter.splits)

lemma filterableEntries_safe:
  assumes "objectSafe st rec"
  shows "filterableEntries rec st entries acc vis \<noteq> Some (Inl e, vis')"
proof (induction entries arbitrary: acc vis)
  case Nil
  show ?case by simp
next
  case (Cons entry rest)
  with filterableEntry_safe [OF assms, of entry acc vis] show ?case
    by (auto split: option.splits sum.splits prod.splits)
qed

lemma getFilterable_safe:
  "getFilterable fuel st schema vis = Some (Inl e, vis') \<Longrightarrow> \<not> refIsZodObject st schema"
proof (induction fuel arbitrary: schema vis e vis')
  case 0
  then show ?case by simp
next
  case (Suc fuel)
  have "objectSafe st (\<lambda>x vs. getFilterable fuel st x vs)"
    unfolding objectSafe_def using Suc.IH by blast
  from filterableEntries_safe [OF this] Suc.prems show ?case
    by (auto simp: refIsZodObject_def isZodObject_def split: if_splits option.splits zdef.splits)
qed


lemma pathDescend_safe:
  assumes "objectSafeP st rec" and "caught \<or> refIsZodObject st x"
  shows "pathDescend rec caught own self key fkp x acc vis \<noteq> Some (Inl e, vis')"
  using assms unfolding objectSafeP_def pathDescend_def
  by (auto split: option.splits sum.splits prod.splits) blast

lemma pathPlain_safe:
  assumes "objectSafeP st rec" and "deref st v = Some value"
  shows "pathPlain rec st pk key v value acc vis \<noteq> Some (Inl e, vis')"
  using assms pathDescend_safe [OF assms(1), of False]
  by (auto simp: pathPlain_def refIsZodObject_def dest: arrayOfObject_ref split: option.splits)

lemma pathEntry_safe:
  assumes "objectSafeP st rec"
  shows "pathEntry rec st pk entry acc vis \<noteq> Some (Inl e, vis')"
  using pathDescend_safe [OF assms, of True] pathPlain_safe [OF assms]
  by (auto simp: pathEntry_def split: prod.splits option.splits zdef.splits getter.splits)

lemma pathEntries_safe:
  assumes "objectSafeP st rec"
  shows "pathEntries rec st pk entries acc vis \<noteq> Some (Inl e, vis')"
proof (induction entries arbitrary: acc vis)
  case Nil
  show ?case by simp
next
  case (Cons entry rest)
  with pathEntry_safe [OF assms, of pk entry acc vis] show ?case
    by (auto split: option.splits sum.splits prod.splits)
qed

lemma getPath_safe:
  "getPath fuel st schema pk vis = Some (Inl e, vis') \<Longrightarrow> \<not> refIsZodObject st schema"
proof (induction fuel arbitrary: schema pk vis e vis')
  case 0
  then show ?case by simp
next
  case (Suc fuel)
  have "objectSafeP st (\<lambda>x pk vs. getPath fuel st x pk vs)"
    unfolding objectSafeP_def using Suc.IH by blast
  from pathEntries_safe [OF this] Suc.prems show ?case
    by (auto simp: refIsZodObject_def isZodObject_def split: if_splits option.splits zdef.splits)
qed

lemma filterableEntries_skip:
  assumes "deref st v = Some value" "zdef value = ZodLazy Throws"
  shows "filterableEntries rec st (pre @ (key, v) # post) acc vis = filterableEntries rec st (pre @ post) acc vis"
proof (induction pre arbitrary: acc vis)
  case Nil
  from assms show ?case by (simp add: filterableEntry_def)
next
  case (Cons entry pre)
  then show ?case by (simp split: option.split sum.split prod.split)
qed

lemma pathEntries_skip:
  assumes "deref st v = Some value" "zdef value = ZodLazy Throws"
  shows "pathEntries rec st pk (pre @ (key, v) # post) acc vis = pathEntries rec st pk (pre @ post) acc vis"
proof (induction pre arbitrary: acc vis)
  case Nil
  from assms show ?case by (simp add: pathEntry_def)
next
  case (Cons entry pre)
  then show ?case by (simp split: option.split sum.split prod.split)
qed


















lemma enough_fuel: "card ({..<length st} - vis) < Suc (length (st :: store))"
proof -
  have "card ({..<length st} - vis) \<le> card {..<length st}"
    by (intro card_mono) auto
  then show ?thesis by simp
qed




section \<open>Resolvers that throw\<close>

text \<open>
  C10. A child of an object schema that is a lazy node whose getter throws: the
  \<^verbatim>\<open>catch\<close> of \<open>getFilterable\<close> and of \<open>getPath\<close> continues with the next entry, so the
  traversal of the schema is the loop over the other entries, the child adding nothing;
  and both functions return a value, not an error, on every object schema.
\<close>

theorem throwing_resolver_skipped:
  assumes "deref st schema = Some node" and "zdef node = ZodObject (pre @ (key, v) # post)"
    and "deref st v = Some value" and "zdef value = ZodLazy Throws" and "schema \<notin> vis"
  shows "getFilterable (Suc fuel) st schema vis =
           filterableEntries (\<lambda>x vs. getFilterable fuel st x vs) st (pre @ post) [] (insert schema vis)
       \<and> getPath (Suc fuel) st schema parentKey vis =
           pathEntries (\<lambda>x pk vs. getPath fuel st x pk vs) st parentKey (pre @ post) [] (insert schema vis)
       \<and> (\<exists>t vis'. getFilterable (Suc (length st)) st schema vis = Some (Inr t, vis'))
       \<and> (\<exists>p vis'. getPath (Suc (length st)) st schema parentKey vis = Some (Inr p, vis'))"
proof -
  have object: "refIsZodObject st schema"
    using assms(1,2) by (simp add: refIsZodObject_def isZodObject_def)
  have "\<exists>t vis'. getFilterable (Suc (length st)) st schema vis = Some (Inr t, vis')"
  proof -
    from getFilterable_total [OF enough_fuel] obtain res vis'
      where r: "getFilterable (Suc (length st)) st schema vis = Some (res, vis')" by blast
    with getFilterable_safe object show ?thesis by (cases res) blast+
  qed
  moreover have "\<exists>p vis'. getPath (Suc (length st)) st schema parentKey vis = Some (Inr p, vis')"
  proof -
    from getPath_total [OF enough_fuel] obtain res vis'
      where r: "getPath (Suc (length st)) st schema parentKey vis = Some (res, vis')" by blast
    with getPath_safe object show ?thesis by (cases res) blast+
  qed
  ultimately show ?thesis
    using assms by (simp add: filterableEntries_skip pathEntries_skip)
qed

theorem throwing_resolver_skipped_witness:
  "deref brokenSchema 2 = Some \<lparr>zdef = ZodObject ([(''a'', 0)] @ (''broken'', 1) # [(''b'', 0)]), ext = Some noFlags\<rparr>
   \<and> deref brokenSchema 1 = Some \<lparr>zdef = ZodLazy Throws, ext = None\<rparr>
   \<and> (2 :: ref) \<notin> {}
   \<and> getFilterable (Suc (length brokenSchema)) brokenSchema 2 {} = Some (Inr [(''a'', CTrue), (''b'', CTrue)], {2})
   \<and> getPath (Suc (length brokenSchema)) brokenSchema 2 [] {} = Some (Inr [(''a'', ''a''), (''b'', ''b'')], {2})"
proof -
  have "deref brokenSchema 2 = Some \<lparr>zdef = ZodObject ([(''a'', 0)] @ (''broken'', 1) # [(''b'', 0)]), ext = Some noFlags\<rparr>"
    and "deref brokenSchema 1 = Some \<lparr>zdef = ZodLazy Throws, ext = None\<rparr>"
    by (simp_all add: deref_def brokenSchema_def)
  moreover have "getFilterable (Suc (length brokenSchema)) brokenSchema 2 {} = Some (Inr [(''a'', CTrue), (''b'', CTrue)], {2})"
    by code_simp
  moreover have "getPath (Suc (length brokenSchema)) brokenSchema 2 [] {} = Some (Inr [(''a'', ''a''), (''b'', ''b'')], {2})"
    by code_simp
  ultimately show ?thesis
    using throwing_resolver_skipped [of brokenSchema 2 _ "[(''a'', 0)]" "''broken''" 1 "[(''b'', 0)]" _ "{}" "length brokenSchema" "[]"]
    by simp
qed

section \<open>Properties of the validators\<close>

lemmas shapes = isString_def isNumber_def isBoolean_def isNull_def isDate_def isArray_def isPair_def isStringWithoutPercent_def

lemma zodParseTuple_any2: "zodParseTuple [ZAny, ZAny] xs = (length xs = 2)"
proof (cases xs)
  case Nil then show ?thesis by simp
next
  case (Cons a ys)
  then show ?thesis
  proof (cases ys)
    case Nil with Cons show ?thesis by simp
  next
    case (Cons b zs)
    with \<open>xs = a # ys\<close> show ?thesis by (cases zs) simp_all
  qed
qed

lemma list_all_any: "list_all (zodParse ZAny) xs" by (induction xs) simp_all


lemma operator_lookups:
  "operatorProperty ''eq'' = Some (Validator scalarOrDate)"
  "operatorProperty ''ne'' = Some (Validator scalarOrDate)"
  "operatorProperty ''gt'' = Some (Validator ordered)"
  "operatorProperty ''gte'' = Some (Validator ordered)"
  "operatorProperty ''lt'' = Some (Validator ordered)"
  "operatorProperty ''lte'' = Some (Validator ordered)"
  "operatorProperty ''in'' = Some (Validator (ZArrayOf ZAny))"
  "operatorProperty ''notIn'' = Some (Validator (ZArrayOf ZAny))"
  "operatorProperty ''like'' = Some (Validator (ZRefine ZString noPercent))"
  "operatorProperty ''notLike'' = Some (Validator (ZRefine ZString noPercent))"
  "operatorProperty ''iLike'' = Some (Validator (ZRefine ZString noPercent))"
  "operatorProperty ''notILike'' = Some (Validator (ZRefine ZString noPercent))"
  "operatorProperty ''between'' = Some (Validator (ZTuple [ZAny, ZAny]))"
  "operatorProperty ''notBetween'' = Some (Validator (ZTuple [ZAny, ZAny]))"
  "operatorProperty ''is'' = Some (Validator (ZUnion [ZNull, ZBoolean]))"
  "operatorProperty ''not'' = Some (Validator (ZUnion [ZString, ZNumber, ZBoolean, ZNull]))"
  "operatorProperty ''or'' = Some (Validator (ZArrayOf ZAny))"
  "operatorProperty ''and'' = Some (Validator (ZArrayOf ZAny))"
  "operatorProperty ''startsWith'' = Some (Validator ZString)"
  "operatorProperty ''endsWith'' = Some (Validator ZString)"
  "operatorProperty ''substring'' = Some (Validator ZString)"
  by (simp_all add: operatorProperty_def sequelizeOperatorValidators_def)

lemma parse_scalarOrDate:
  "zodParse scalarOrDate v = (isString v \<or> isNumber v \<or> isBoolean v \<or> isNull v \<or> isDate v)"
  by (cases v) (simp_all add: scalarOrDate_def shapes)

lemma parse_ordered: "zodParse ordered v = (isNumber v \<or> isDate v \<or> isString v)"
  by (cases v) (simp_all add: ordered_def shapes)

lemma parse_array_any: "zodParse (ZArrayOf ZAny) v = isArray v"
  by (cases v) (simp_all add: shapes list_all_any)

lemma parse_no_percent: "zodParse (ZRefine ZString noPercent) v = isStringWithoutPercent v"
  by (cases v) (simp_all add: shapes noPercent_def)

lemma parse_pair: "zodParse (ZTuple [ZAny, ZAny]) v = isPair v"
  by (cases v) (simp_all add: shapes zodParseTuple_any2)

lemma parse_is: "zodParse (ZUnion [ZNull, ZBoolean]) v = (isNull v \<or> isBoolean v)"
  by (cases v) (simp_all add: shapes)

lemma parse_not:
  "zodParse (ZUnion [ZString, ZNumber, ZBoolean, ZNull]) v = (isString v \<or> isNumber v \<or> isBoolean v \<or> isNull v)"
  by (cases v) (simp_all add: shapes)

lemma parse_string: "zodParse ZString v = isString v"
  by (cases v) (simp_all add: shapes)

lemmas parses = parse_scalarOrDate parse_ordered parse_array_any parse_no_percent parse_pair
  parse_is parse_not parse_string

lemma validate_known:
  "operatorProperty operator = Some (Validator schema) \<Longrightarrow>
   validateOperatorInput operator v = Inr (if zodParse schema v then Valid else Invalid ZodError)"
  by (simp add: validateOperatorInput_def)


lemma conformsTo_cases:
  "conformsTo ''eq'' v = (isString v \<or> isNumber v \<or> isBoolean v \<or> isNull v \<or> isDate v)"
  "conformsTo ''ne'' v = (isString v \<or> isNumber v \<or> isBoolean v \<or> isNull v \<or> isDate v)"
  "conformsTo ''gt'' v = (isNumber v \<or> isDate v \<or> isString v)"
  "conformsTo ''gte'' v = (isNumber v \<or> isDate v \<or> isString v)"
  "conformsTo ''lt'' v = (isNumber v \<or> isDate v \<or> isString v)"
  "conformsTo ''lte'' v = (isNumber v \<or> isDate v \<or> isString v)"
  "conformsTo ''in'' v = isArray v"
  "conformsTo ''notIn'' v = isArray v"
  "conformsTo ''like'' v = isStringWithoutPercent v"
  "conformsTo ''notLike'' v = isStringWithoutPercent v"
  "conformsTo ''iLike'' v = isStringWithoutPercent v"
  "conformsTo ''notILike'' v = isStringWithoutPercent v"
  "conformsTo ''between'' v = isPair v"
  "conformsTo ''notBetween'' v = isPair v"
  "conformsTo ''is'' v = (isNull v \<or> isBoolean v)"
  "conformsTo ''not'' v = (isString v \<or> isNumber v \<or> isBoolean v \<or> isNull v)"
  "conformsTo ''or'' v = isArray v"
  "conformsTo ''and'' v = isArray v"
  "conformsTo ''startsWith'' v = isString v"
  "conformsTo ''endsWith'' v = isString v"
  "conformsTo ''substring'' v = isString v"
  by (simp_all add: conformsTo_def)

lemma validate_cases:
  "validateOperatorInput ''eq'' v = Inr (if (isString v \<or> isNumber v \<or> isBoolean v \<or> isNull v \<or> isDate v) then Valid else Invalid ZodError)"
  "validateOperatorInput ''ne'' v = Inr (if (isString v \<or> isNumber v \<or> isBoolean v \<or> isNull v \<or> isDate v) then Valid else Invalid ZodError)"
  "validateOperatorInput ''gt'' v = Inr (if (isNumber v \<or> isDate v \<or> isString v) then Valid else Invalid ZodError)"
  "validateOperatorInput ''gte'' v = Inr (if (isNumber v \<or> isDate v \<or> isString v) then Valid else Invalid ZodError)"
  "validateOperatorInput ''lt'' v = Inr (if (isNumber v \<or> isDate v \<or> isString v) then Valid else Invalid ZodError)"
  "validateOperatorInput ''lte'' v = Inr (if (isNumber v \<or> isDate v \<or> isString v) then Valid else Invalid ZodError)"
  "validateOperatorInput ''in'' v = Inr (if isArray v then Valid else Invalid ZodError)"
  "validateOperatorInput ''notIn'' v = Inr (if isArray v then Valid else Invalid ZodError)"
  "validateOperatorInput ''like'' v = Inr (if isStringWithoutPercent v then Valid else Invalid ZodError)"
  "validateOperatorInput ''notLike'' v = Inr (if isStringWithoutPercent v then Valid else Invalid ZodError)"
  "validateOperatorInput ''iLike'' v = Inr (if isStringWithoutPercent v then Valid else Invalid ZodError)"
  "validateOperatorInput ''notILike'' v = Inr (if isStringWithoutPercent v then Valid else Invalid ZodError)"
  "validateOperatorInput ''between'' v = Inr (if isPair v then Valid else Invalid ZodError)"
  "validateOperatorInput ''notBetween'' v = Inr (if isPair v then Valid else Invalid ZodError)"
  "validateOperatorInput ''is'' v = Inr (if (isNull v \<or> isBoolean v) then Valid else Invalid ZodError)"
  "validateOperatorInput ''not'' v = Inr (if (isString v \<or> isNumber v \<or> isBoolean v \<or> isNull v) then Valid else Invalid ZodError)"
  "validateOperatorInput ''or'' v = Inr (if isArray v then Valid else Invalid ZodError)"
  "validateOperatorInput ''and'' v = Inr (if isArray v then Valid else Invalid ZodError)"
  "validateOperatorInput ''startsWith'' v = Inr (if isString v then Valid else Invalid ZodError)"
  "validateOperatorInput ''endsWith'' v = Inr (if isString v then Valid else Invalid ZodError)"
  "validateOperatorInput ''substring'' v = Inr (if isString v then Valid else Invalid ZodError)"
  by (simp_all add: validate_known operator_lookups parses del: zodParse.simps)

lemma validate_vocabulary:
  "list_all (\<lambda>operator. \<forall>v. validateOperatorInput operator v =
       Inr (if conformsTo operator v then Valid else Invalid ZodError)) operatorVocabulary"
  unfolding operatorVocabulary_def list.pred_inject
  by (simp only: validate_cases conformsTo_cases simp_thms list.pred_inject)


text \<open>
  C5. For every operator of the vocabulary, \<open>validateOperatorInput\<close> returns, without
  throwing, \<^verbatim>\<open>[true, null]\<close> on an operand that conforms to the operator's shape in the
  specification's table, and \<^verbatim>\<open>[null, err]\<close> with the \<^verbatim>\<open>ZodError\<close> on any other operand; a
  string that contains \<^verbatim>\<open>%\<close> is rejected by \<^verbatim>\<open>like\<close>, \<^verbatim>\<open>notLike\<close>, \<^verbatim>\<open>iLike\<close> and \<^verbatim>\<open>notILike\<close>.
\<close>

theorem validateOperatorInput_conforms:
  assumes "operator \<in> set operatorVocabulary"
  shows "validateOperatorInput operator v = Inr (if conformsTo operator v then Valid else Invalid ZodError)
       \<and> (operator \<in> {''like'', ''notLike'', ''iLike'', ''notILike''} \<and> CHR ''%'' \<in> set s \<longrightarrow>
            validateOperatorInput operator (JString s) = Inr (Invalid ZodError))"
proof -
  have main: "validateOperatorInput operator w = Inr (if conformsTo operator w then Valid else Invalid ZodError)" for w
    using assms validate_vocabulary by (simp add: list_all_iff)
  have "\<not> conformsTo operator (JString s)"
    if "operator \<in> {''like'', ''notLike'', ''iLike'', ''notILike''}" and "CHR ''%'' \<in> set s"
    using that by (auto simp: conformsTo_cases isStringWithoutPercent_def)
  then show ?thesis
    by (simp add: main)
qed

theorem validateOperatorInput_conforms_witness:
  "''like'' \<in> set operatorVocabulary
   \<and> validateOperatorInput ''like'' (JString ''abc'') = Inr Valid
   \<and> validateOperatorInput ''like'' (JString ''abc%'') = Inr (Invalid ZodError)"
  using validateOperatorInput_conforms [of "''like''" "JString ''abc''" "''abc%''"]
  by (simp add: operatorVocabulary_def conformsTo_cases isStringWithoutPercent_def)

section \<open>Properties of the filter validation\<close>

text \<open>
  C6. A known field whose value is an object with a key that is no operator:
  \<^verbatim>\<open>validateOptions({status: {bogus: 1}}, {status: true})\<close>. The \<^verbatim>\<open>return\<close> of line 81 leaves
  the \<^verbatim>\<open>forEach\<close> callback, not \<open>validateOptions\<close>, which goes on to the next entry and
  returns \<^verbatim>\<open>[true, null]\<close>.
\<close>

theorem validateOptions_nested_key_unreported:
  "nestedKeyCallback ''bogus'' = Some (Invalid (InvalidKey ''bogus''))
   \<and> validateOptions [(''status'', JObject [(''bogus'', JNumber 1)])] [(''status'', JBool True)] = Inr Valid"
  by (simp add: validateOptions_def nestedToDotObject_def hasOwnProperty_def operatorProperty_def
      nestedKeyCallback_def sequelizeOperatorValidators_def objectPrototypeKeys_def objectKeys_def)

text \<open>
  C7. A key that is neither a field nor an operator, but the name of a property that
  every object inherits: \<^verbatim>\<open>validateOptions({constructor: 1}, {})\<close>. Both truthiness tests on
  \<^verbatim>\<open>sequelizeOperatorValidators[key]\<close> find the inherited function, the key is handed to
  \<open>validateOperatorInput\<close> as an operator, and the call throws a \<^verbatim>\<open>TypeError\<close>: the invalid
  key is thrown, not returned as a tuple.
\<close>

theorem validateOptions_inherited_key_throws:
  "\<not> hasOwnProperty (nestedToDotObject []) ''constructor''
   \<and> ''constructor'' \<notin> set operatorVocabulary
   \<and> validateOptions [(''constructor'', JNumber 1)] [] = Inl TypeError"
  by (simp add: validateOptions_def nestedToDotObject_def hasOwnProperty_def operatorProperty_def
      validateOperatorInput_def sequelizeOperatorValidators_def objectPrototypeKeys_def
      operatorVocabulary_def)











section \<open>The path index\<close>

text \<open>
  C9. The leaf branch of \<open>getPath\<close> writes a leaf that declares a path alias under its
  dotted key (\<^verbatim>\<open>paths[fullKey] = fullPath\<close>, line 341) and a leaf that declares none under
  its bare key (\<^verbatim>\<open>paths[key] = fullKeyPath.join('.')\<close>, line 344); the entry that maps a path
  to itself is written by the two array blocks only (lines 303 and 330).
  In \<open>nameClash\<close> the nested leaf \<^verbatim>\<open>company.name\<close> arrives at the root under the bare key
  \<^verbatim>\<open>name\<close> and overwrites the entry of the root leaf \<^verbatim>\<open>name\<close>, whose key then maps to
  \<^verbatim>\<open>company.name\<close>. In \<open>deepSchema\<close> the leaf at \<^verbatim>\<open>a.b.leaf\<close> is indexed under \<^verbatim>\<open>leaf\<close>,
  \<^verbatim>\<open>a.leaf\<close> and \<^verbatim>\<open>b.leaf\<close>, not under its dotted key, whereas in \<open>deepAlias\<close> the aliased
  leaf at the same depth is indexed under \<^verbatim>\<open>a.b.mail\<close>. Neither \<open>deepAlias\<close> nor
  \<open>aliasSchema\<close> holds an entry for the alias target; \<open>arrayAlias\<close> and the lazy array of
  \<open>lazyPaths\<close> hold it. For the schema of the README the index holds the bare keys
  \<^verbatim>\<open>firstName\<close> and \<^verbatim>\<open>lastName\<close> besides the five keys that the README lists.
\<close>

theorem getPath_index_divergence:
  "getPath 2 nameClash 3 [] {} =
     Some (Inr [(''name'', ''company.name''), (''company.name'', ''company.name'')], {2, 3})
   \<and> map_of [(''name'', ''company.name''), (''company.name'', ''company.name'')] ''name''
       = Some ''company.name''
   \<and> getPath 3 deepSchema 3 [] {} =
       Some (Inr [(''leaf'', ''a.b.leaf''), (''a.leaf'', ''a.b.leaf''), (''b.leaf'', ''a.b.leaf'')], {1, 2, 3})
   \<and> map_of [(''leaf'', ''a.b.leaf''), (''a.leaf'', ''a.b.leaf''), (''b.leaf'', ''a.b.leaf'')] ''a.b.leaf'' = None
   \<and> getPath 3 deepAlias 3 [] {} =
       Some (Inr [(''a.b.mail'', ''a.b.email''), (''a.mail'', ''a.b.email''), (''b.mail'', ''a.b.email'')],
             {1, 2, 3})
   \<and> map_of [(''a.b.mail'', ''a.b.email''), (''a.mail'', ''a.b.email''), (''b.mail'', ''a.b.email'')]
        ''a.b.email'' = None
   \<and> getPath 1 aliasSchema 2 [] {} = Some (Inr [(''mail'', ''email''), (''name'', ''name'')], {2})
   \<and> map_of [(''mail'', ''email''), (''name'', ''name'')] ''email'' = None
   \<and> getPath 2 arrayAlias 3 [] {} =
       Some (Inr [(''items.mail'', ''items.email''), (''items.email'', ''items.email'')], {1, 3})
   \<and> getPath 2 lazyPaths 7 [] {} =
       Some (Inr [(''later.leaf'', ''later.leaf''), (''list.mail'', ''list.email''),
                  (''list.email'', ''list.email'')], {1, 4, 7})
   \<and> getPath 2 readmeSchema 2 [] {} =
       Some (Inr [(''id'', ''id''), (''username'', ''username''), (''email'', ''email''),
                  (''firstName'', ''profile.firstName''), (''profile.firstName'', ''profile.firstName''),
                  (''lastName'', ''profile.lastName''), (''profile.lastName'', ''profile.lastName'')], {1, 2})"
  by code_simp

section \<open>Capability trees: lookups in the result\<close>

lemma plainEntries_append:
  "plainEntries body (xs @ ys) acc =
     (case plainEntries body xs acc of
        None \<Rightarrow> None
      | Some (Inl e) \<Rightarrow> Some (Inl e)
      | Some (Inr a) \<Rightarrow> plainEntries body ys a)"
  by (induction xs arbitrary: acc) (simp_all split: option.split sum.split)

lemma plainEntries_invariant:
  assumes "plainEntries body entries acc = Some (Inr t)" and "P acc"
    and "\<And>entry a a'. entry \<in> set entries \<Longrightarrow> P a \<Longrightarrow> body entry a = Some (Inr a') \<Longrightarrow> P a'"
  shows "P t"
  using assms
proof (induction entries arbitrary: acc)
  case Nil
  then show ?case by simp
next
  case (Cons entry rest)
  from Cons.prems(1) obtain a1 where a1: "body entry acc = Some (Inr a1)"
    and rest: "plainEntries body rest a1 = Some (Inr t)"
    by (auto split: option.splits sum.splits)
  from Cons.prems(3) [of entry acc a1] Cons.prems(2) a1 have "P a1" by simp
  show ?case
  proof (rule Cons.IH [OF rest \<open>P a1\<close>])
    fix e a a' assume "e \<in> set rest" "P a" "body e a = Some (Inr a')"
    then show "P a'" using Cons.prems(3) [of e a a'] by simp
  qed
qed

lemma plainEntries_split:
  assumes "plainEntries body (pre @ entry # post) acc = Some (Inr t)"
  obtains a1 a2 where "plainEntries body pre acc = Some (Inr a1)"
    and "body entry a1 = Some (Inr a2)" and "plainEntries body post a2 = Some (Inr t)"
  using assms
  by (auto simp: plainEntries_append split: option.splits sum.splits)

lemma fold_setNestedKey:
  "map_of (fold (\<lambda>p a. setNestedKey a p) ps acc) x = (if x \<in> set ps then Some CTrue else map_of acc x)"
  by (induction ps arbitrary: acc) (auto simp: setNestedKey_def update_conv')

lemma assignNested_lookup:
  "map_of (assignNested key nested acc) x =
     (if x = key \<and> nested \<noteq> [] then Some (CTree nested) else map_of acc x)"
  by (simp add: assignNested_def update_conv')

lemma setNestedKey_lookup:
  "map_of (setNestedKey acc key) x = (if x = key then Some CTrue else map_of acc x)"
  by (simp add: setNestedKey_def update_conv')

lemma queryableLeaf_lookup:
  "map_of (queryableLeaf key value acc) x =
     (case ext value of
        None \<Rightarrow> map_of acc x
      | Some d \<Rightarrow>
          (if queryable d then
             (case path d of
                Some ps \<Rightarrow> (if x \<in> set ps then Some CTrue else map_of acc x)
              | None \<Rightarrow> (if x = key then Some CTrue else map_of acc x))
           else map_of acc x))"
  by (simp add: queryableLeaf_def fold_setNestedKey setNestedKey_lookup split: option.split)

lemma queryableEntry_leaf:
  "deref st c = Some value \<Longrightarrow> \<not> isZodObject value \<Longrightarrow>
   queryableEntry rec st (key, c) acc = Some (Inr (queryableLeaf key value acc))"
  by (simp add: queryableEntry_def)

lemma queryableEntry_object:
  "deref st c = Some value \<Longrightarrow> isZodObject value \<Longrightarrow>
   queryableEntry rec st (key, c) acc = plainDescend rec key c acc"
  by (simp add: queryableEntry_def)

lemma plainDescend_lookup:
  "plainDescend rec key c acc = Some (Inr a') \<Longrightarrow>
   \<exists>nested. rec c = Some (Inr nested) \<and> a' = assignNested key nested acc"
  by (auto simp: plainDescend_def split: option.splits sum.splits)


lemma queryableEntry_other:
  assumes "queryableEntry rec st (k, c) acc = Some (Inr a')" "x \<noteq> k" "x \<notin> queryableAliases st c"
  shows "map_of a' x = map_of acc x"
proof (cases "deref st c")
  case None
  with assms show ?thesis by (simp add: queryableEntry_def)
next
  case (Some "value")
  show ?thesis
  proof (cases "isZodObject value")
    case True
    with assms(1) Some have "plainDescend rec k c acc = Some (Inr a')"
      by (simp add: queryableEntry_object)
    then obtain nested where "a' = assignNested k nested acc"
      using plainDescend_lookup by blast
    with assms(2) show ?thesis by (simp add: assignNested_lookup)
  next
    case False
    with assms(1) Some queryableEntry_leaf [OF Some False, of rec k acc]
    have a': "a' = queryableLeaf k value acc" by simp
    show ?thesis
    proof (cases "ext value")
      case None
      then show ?thesis by (simp add: a' queryableLeaf_lookup)
    next
      case (Some d)
      with assms(3) \<open>deref st c = Some value\<close> False have "x \<notin> declaredAliases d"
        by (simp add: queryableAliases_def)
      with Some assms(2) show ?thesis
        by (cases "path d") (simp_all add: a' queryableLeaf_lookup declaredAliases_def split: if_splits)
    qed
  qed
qed

lemma queryableEntry_true_stays:
  assumes "queryableEntry rec st (k, c) acc = Some (Inr a')" "map_of acc x = Some CTrue"
    and "\<not> (k = x \<and> refIsZodObject st c)"
  shows "map_of a' x = Some CTrue"
proof (cases "deref st c")
  case None
  with assms show ?thesis by (simp add: queryableEntry_def)
next
  case (Some "value")
  show ?thesis
  proof (cases "isZodObject value")
    case True
    with assms(1) Some have "plainDescend rec k c acc = Some (Inr a')"
      by (simp add: queryableEntry_object)
    then obtain nested where "a' = assignNested k nested acc"
      using plainDescend_lookup by blast
    moreover from True Some assms(3) have "k \<noteq> x" by (auto simp: refIsZodObject_def)
    ultimately show ?thesis using assms(2) by (auto simp: assignNested_lookup)
  next
    case False
    with assms Some queryableEntry_leaf [OF Some False, of rec k acc] show ?thesis
      by (auto simp: queryableLeaf_lookup split: option.splits)
  qed
qed

lemma distinct_keys_split:
  assumes "distinct (map fst (pre @ (key, c) # post))"
  shows "\<forall>(k, c') \<in> set pre. k \<noteq> key" and "\<forall>(k, c') \<in> set post. k \<noteq> key"
  using assms by (auto simp: rev_image_eqI)

text \<open>
  C4, as stated, fails. In \<open>aliasClash\<close> the leaf \<^verbatim>\<open>mail\<close> is queryable with the alias
  \<^verbatim>\<open>email\<close>, but the object declared under \<^verbatim>\<open>email\<close> after it overwrites the entry, so the
  result does not map \<^verbatim>\<open>email\<close> to \<^verbatim>\<open>true\<close>; and the alias of \<^verbatim>\<open>nick\<close> puts an entry under
  the declared key \<^verbatim>\<open>mail\<close>.
\<close>

theorem getQueryable_alias_counterexample:
  "getQueryable 3 aliasClash 4 = Some (Inr [(''email'', CTree [(''x'', CTrue)]), (''mail'', CTrue)])
   \<and> map_of [(''email'', CTree [(''x'', CTrue)]), (''mail'', CTrue)] ''email'' \<noteq> Some CTrue
   \<and> map_of [(''email'', CTree [(''x'', CTrue)]), (''mail'', CTrue)] ''mail'' \<noteq> None"
  by code_simp

text \<open>
  C4, amended. For a queryable leaf that is a direct child of an object schema:
  every alias of its path maps to \<^verbatim>\<open>true\<close> in the result of \<open>getQueryable\<close>, provided no
  object child of the schema is declared under the alias; the result has no entry under
  the leaf's declared key, provided the key is not an alias written by a child of the
  schema; and a queryable leaf without a path maps its declared key to \<^verbatim>\<open>true\<close>.
\<close>

theorem getQueryable_alias:
  assumes "deref st schema = Some node" and "zdef node = ZodObject shape"
    and "distinct (map fst shape)" and "(key, c) \<in> set shape"
    and "deref st c = Some value" and "\<not> isZodObject value"
    and "ext value = Some d" and "queryable d"
    and "getQueryable (Suc fuel) st schema = Some (Inr t)"
  shows "(path d = Some aliases \<and> target \<in> set aliases
            \<and> (\<forall>c'. (target, c') \<in> set shape \<longrightarrow> \<not> refIsZodObject st c') \<longrightarrow>
          map_of t target = Some CTrue)
       \<and> (path d = Some aliases \<and> (\<forall>(k', c') \<in> set shape. key \<notin> queryableAliases st c') \<longrightarrow>
          map_of t key = None)
       \<and> (path d = None \<longrightarrow> map_of t key = Some CTrue)"
proof -
  let ?body = "queryableEntry (\<lambda>x. getQueryable fuel st x) st"
  from assms(4) obtain pre post where shape: "shape = pre @ (key, c) # post"
    by (auto dest: split_list)
  from assms(1,2,9) have "plainEntries ?body (pre @ (key, c) # post) [] = Some (Inr t)"
    by (simp add: shape)
  then obtain a1 a2 where pre: "plainEntries ?body pre [] = Some (Inr a1)"
    and entry: "?body (key, c) a1 = Some (Inr a2)"
    and post: "plainEntries ?body post a2 = Some (Inr t)"
    by (rule plainEntries_split)
  from entry have a2: "a2 = queryableLeaf key value a1"
    by (simp add: queryableEntry_leaf [OF assms(5,6)])
  from assms(3) have others: "\<forall>(k, c') \<in> set pre. k \<noteq> key" "\<forall>(k, c') \<in> set post. k \<noteq> key"
    unfolding shape by (rule distinct_keys_split)+
  have own: "queryableAliases st c = declaredAliases d"
    using assms(5,6,7) by (simp add: queryableAliases_def)
  have one: "map_of t target = Some CTrue"
    if "path d = Some aliases" "target \<in> set aliases"
      and free: "\<forall>c'. (target, c') \<in> set shape \<longrightarrow> \<not> refIsZodObject st c'"
  proof (rule plainEntries_invariant [OF post])
    show "map_of a2 target = Some CTrue"
      using that(1,2) assms(7,8) by (simp add: a2 queryableLeaf_lookup)
  next
    fix e a a' assume e: "e \<in> set post" and a: "map_of a target = Some CTrue" "?body e a = Some (Inr a')"
    obtain k c' where kc: "e = (k, c')" by (cases e)
    with e have "(k, c') \<in> set shape" by (simp add: shape)
    with free have "\<not> (k = target \<and> refIsZodObject st c')" by blast
    with a kc show "map_of a' target = Some CTrue"
      using queryableEntry_true_stays by blast
  qed
  have two: "map_of t key = None"
    if "path d = Some aliases" and free: "\<forall>(k', c') \<in> set shape. key \<notin> queryableAliases st c'"
  proof -
    have untouched: "map_of a' key = None"
      if "e \<in> set pre \<or> e \<in> set post" "map_of a key = None" "?body e a = Some (Inr a')" for e a a'
    proof -
      obtain k c' where kc: "e = (k, c')" by (cases e)
      with that(1) others have "k \<noteq> key" by auto
      moreover from that(1) kc free have "key \<notin> queryableAliases st c'" by (auto simp: shape)
      ultimately show ?thesis
        using queryableEntry_other [of _ st k c' a a' key] that(2,3) kc by simp
    qed
    have "map_of a1 key = None"
      by (rule plainEntries_invariant [OF pre]) (use untouched in auto)
    moreover from free have "key \<notin> queryableAliases st c" by (auto simp: shape)
    ultimately have "map_of a2 key = None"
      using that(1) assms(7,8) own
      by (simp add: a2 queryableLeaf_lookup declaredAliases_def)
    then show ?thesis
      by (rule plainEntries_invariant [OF post]) (use untouched in auto)
  qed
  have three: "map_of t key = Some CTrue" if "path d = None"
  proof (rule plainEntries_invariant [OF post])
    show "map_of a2 key = Some CTrue"
      using that assms(7,8) by (simp add: a2 queryableLeaf_lookup)
  next
    fix e a a' assume e: "e \<in> set post" and a: "map_of a key = Some CTrue" "?body e a = Some (Inr a')"
    obtain k c' where kc: "e = (k, c')" by (cases e)
    with e others have "k \<noteq> key" by auto
    with a kc show "map_of a' key = Some CTrue"
      using queryableEntry_true_stays by blast
  qed
  from one two three show ?thesis by blast
qed

theorem getQueryable_alias_witness:
  "deref aliasSchemaQ 2 = Some \<lparr>zdef = ZodObject [(''name'', 0), (''mail'', 1)], ext = Some noFlags\<rparr>
   \<and> distinct (map fst [(''name'', 0 :: ref), (''mail'', 1)])
   \<and> (''mail'', 1) \<in> set [(''name'', 0 :: ref), (''mail'', 1)]
   \<and> (''name'', 0) \<in> set [(''name'', 0 :: ref), (''mail'', 1)]
   \<and> deref aliasSchemaQ 1 = Some \<lparr>zdef = ZodOther, ext = Some (noFlags\<lparr>queryable := True, path := Some [''email'']\<rparr>)\<rparr>
   \<and> deref aliasSchemaQ 0 = Some \<lparr>zdef = ZodOther, ext = Some (noFlags\<lparr>queryable := True\<rparr>)\<rparr>
   \<and> ''email'' \<in> set [''email'']
   \<and> (\<forall>c'. (''email'', c') \<notin> set [(''name'', 0 :: ref), (''mail'', 1)])
   \<and> ''mail'' \<notin> queryableAliases aliasSchemaQ 0 \<and> ''mail'' \<notin> queryableAliases aliasSchemaQ 1
   \<and> getQueryable (Suc 1) aliasSchemaQ 2 = Some (Inr [(''name'', CTrue), (''email'', CTrue)])
   \<and> map_of [(''name'', CTrue), (''email'', CTrue)] ''email'' = Some CTrue
   \<and> map_of [(''name'', CTrue), (''email'', CTrue)] ''mail'' = None
   \<and> map_of [(''name'', CTrue), (''email'', CTrue)] ''name'' = Some CTrue"
proof -
  have root: "deref aliasSchemaQ 2 = Some \<lparr>zdef = ZodObject [(''name'', 0), (''mail'', 1)], ext = Some noFlags\<rparr>"
    and mail: "deref aliasSchemaQ 1 = Some \<lparr>zdef = ZodOther, ext = Some (noFlags\<lparr>queryable := True, path := Some [''email'']\<rparr>)\<rparr>"
    and name: "deref aliasSchemaQ 0 = Some \<lparr>zdef = ZodOther, ext = Some (noFlags\<lparr>queryable := True\<rparr>)\<rparr>"
    by (simp_all add: deref_def aliasSchemaQ_def)
  have run: "getQueryable (Suc 1) aliasSchemaQ 2 = Some (Inr [(''name'', CTrue), (''email'', CTrue)])"
    by code_simp
  have free: "''mail'' \<notin> queryableAliases aliasSchemaQ 0 \<and> ''mail'' \<notin> queryableAliases aliasSchemaQ 1"
    by (simp add: queryableAliases_def declaredAliases_def deref_def aliasSchemaQ_def isZodObject_def noFlags_def)
  have "map_of [(''name'', CTrue), (''email'', CTrue)] ''email'' = Some CTrue
      \<and> map_of [(''name'', CTrue), (''email'', CTrue)] ''mail'' = None"
    using getQueryable_alias [where key = "''mail''" and aliases = "[''email'']" and target = "''email''",
        OF root _ _ _ mail _ _ _ run] free
    by (simp add: isZodObject_def noFlags_def)
  moreover have "map_of [(''name'', CTrue), (''email'', CTrue)] ''name'' = Some CTrue"
    by simp
  ultimately show ?thesis
    using root mail name run free by simp
qed

lemma prunedCaps_update:
  "prunedCaps acc \<Longrightarrow> prunedCap v \<Longrightarrow> prunedCaps (AList.update k v acc)"
  unfolding prunedCaps_def by (induction acc) auto

lemma prunedCaps_assignNested:
  assumes "prunedCaps acc" "prunedCaps nested"
  shows "prunedCaps (assignNested key nested acc)"
proof (cases "nested = []")
  case True
  with assms show ?thesis by (simp add: assignNested_def)
next
  case False
  with assms(2) have "prunedCap (CTree nested)" by (simp add: prunedCaps_def)
  with assms(1) False show ?thesis by (simp add: assignNested_def prunedCaps_update)
qed

lemma prunedCaps_setNestedKey: "prunedCaps acc \<Longrightarrow> prunedCaps (setNestedKey acc key)"
  by (simp add: setNestedKey_def prunedCaps_update)

lemma prunedCaps_queryableLeaf: "prunedCaps acc \<Longrightarrow> prunedCaps (queryableLeaf key value acc)"
proof -
  have "prunedCaps a \<Longrightarrow> prunedCaps (fold (\<lambda>p a. setNestedKey a p) ps a)" for ps a
    by (induction ps arbitrary: a) (simp_all add: prunedCaps_setNestedKey)
  then show "prunedCaps acc \<Longrightarrow> prunedCaps (queryableLeaf key value acc)"
    by (simp add: queryableLeaf_def prunedCaps_setNestedKey split: option.split)
qed

lemma plainDescend_pruned:
  assumes "plainDescend rec key c acc = Some (Inr a')" "prunedCaps acc"
    and "\<And>x t. rec x = Some (Inr t) \<Longrightarrow> prunedCaps t"
  shows "prunedCaps a'"
  using assms plainDescend_lookup [OF assms(1)] by (auto simp: prunedCaps_assignNested)

lemma getSortable_pruned: "getSortable fuel st schema = Some (Inr t) \<Longrightarrow> prunedCaps t"
proof (induction fuel arbitrary: schema t)
  case 0
  then show ?case by simp
next
  case (Suc fuel)
  let ?rec = "\<lambda>x. getSortable fuel st x"
  from Suc.prems obtain shape where run: "plainEntries (sortableEntry ?rec st) shape [] = Some (Inr t)"
    by (auto split: option.splits zdef.splits)
  show ?case
  proof (rule plainEntries_invariant [OF run])
    show "prunedCaps []" by (simp add: prunedCaps_def)
  next
    fix e a a' assume "prunedCaps a" and step: "sortableEntry ?rec st e a = Some (Inr a')"
    then show "prunedCaps a'"
      using plainDescend_pruned [of ?rec _ _ a a'] Suc.IH
      by (auto simp: sortableEntry_def prunedCaps_setNestedKey split: prod.splits option.splits if_splits)
  qed
qed

lemma getQueryable_pruned: "getQueryable fuel st schema = Some (Inr t) \<Longrightarrow> prunedCaps t"
proof (induction fuel arbitrary: schema t)
  case 0
  then show ?case by simp
next
  case (Suc fuel)
  let ?rec = "\<lambda>x. getQueryable fuel st x"
  from Suc.prems obtain shape where run: "plainEntries (queryableEntry ?rec st) shape [] = Some (Inr t)"
    by (auto split: option.splits zdef.splits)
  show ?case
  proof (rule plainEntries_invariant [OF run])
    show "prunedCaps []" by (simp add: prunedCaps_def)
  next
    fix e a a' assume "prunedCaps a" and step: "queryableEntry ?rec st e a = Some (Inr a')"
    then show "prunedCaps a'"
      using plainDescend_pruned [of ?rec _ _ a a'] Suc.IH
      by (auto simp: queryableEntry_def prunedCaps_queryableLeaf split: prod.splits option.splits if_splits)
  qed
qed

lemma filterableEntries_append:
  "filterableEntries rec st (xs @ ys) acc vis =
     (case filterableEntries rec st xs acc vis of
        None \<Rightarrow> None
      | Some (Inl e, vs) \<Rightarrow> Some (Inl e, vs)
      | Some (Inr a, vs) \<Rightarrow> filterableEntries rec st ys a vs)"
  by (induction xs arbitrary: acc vis) (simp_all split: option.split sum.split prod.split)

lemma filterableEntries_invariant:
  assumes "filterableEntries rec st entries acc vis = Some (Inr t, vis')" and "P acc"
    and "\<And>entry a vs a' vs'. entry \<in> set entries \<Longrightarrow> P a \<Longrightarrow>
           filterableEntry rec st entry a vs = Some (Inr a', vs') \<Longrightarrow> P a'"
  shows "P t"
  using assms
proof (induction entries arbitrary: acc vis)
  case Nil
  then show ?case by simp
next
  case (Cons entry rest)
  from Cons.prems(1) obtain a1 v1 where a1: "filterableEntry rec st entry acc vis = Some (Inr a1, v1)"
    and rest: "filterableEntries rec st rest a1 v1 = Some (Inr t, vis')"
    by (auto split: option.splits sum.splits prod.splits)
  from Cons.prems(3) [of entry acc vis a1 v1] Cons.prems(2) a1 have "P a1" by simp
  show ?case
  proof (rule Cons.IH [OF rest \<open>P a1\<close>])
    fix e a vs a' vs'
    assume "e \<in> set rest" "P a" "filterableEntry rec st e a vs = Some (Inr a', vs')"
    then show "P a'" using Cons.prems(3) [of e a vs a' vs'] by simp
  qed
qed

lemma filterableEntries_split:
  assumes "filterableEntries rec st (pre @ entry # post) acc vis = Some (Inr t, vis')"
  obtains a1 v1 a2 v2 where "filterableEntries rec st pre acc vis = Some (Inr a1, v1)"
    and "filterableEntry rec st entry a1 v1 = Some (Inr a2, v2)"
    and "filterableEntries rec st post a2 v2 = Some (Inr t, vis')"
  using assms
  by (auto simp: filterableEntries_append split: option.splits sum.splits prod.splits)

lemma filterableDescend_cases:
  assumes "filterableDescend rec caught key x acc vis = Some (Inr a', vis')"
  shows "(\<exists>nested. x \<notin> vis \<and> rec x vis = Some (Inr nested, vis') \<and> a' = assignNested key nested acc)
       \<or> a' = acc"
  using assms
  by (auto simp: filterableDescend_def split: if_splits option.splits sum.splits prod.splits)

lemma filterablePlain_cases:
  assumes "filterablePlain rec st key v value acc vis = Some (Inr a', vis')"
  shows "(\<exists>x nested. rec x vis = Some (Inr nested, vis') \<and> a' = assignNested key nested acc)
       \<or> a' = acc \<or> a' = setNestedKey acc key"
  using assms filterableDescend_cases [of rec False key _ acc vis a' vis']
  by (auto simp: filterablePlain_def split: if_splits option.splits)

lemma filterableEntry_cases:
  assumes "filterableEntry rec st (key, v) acc vis = Some (Inr a', vis')"
  shows "(\<exists>x nested. rec x vis = Some (Inr nested, vis') \<and> a' = assignNested key nested acc)
       \<or> a' = acc \<or> a' = setNestedKey acc key"
  using assms filterableDescend_cases [of rec True key _ acc vis a' vis']
    filterablePlain_cases [of rec st key v _ acc vis a' vis']
  by (auto simp: filterableEntry_def split: option.splits zdef.splits getter.splits if_splits)

lemma filterableEntry_other:
  assumes "filterableEntry rec st (k, c) acc vis = Some (Inr a', vis')" "x \<noteq> k"
  shows "map_of a' x = map_of acc x"
  using filterableEntry_cases [OF assms(1)] assms(2)
  by (auto simp: assignNested_lookup setNestedKey_lookup)

lemma filterableEntry_target:
  assumes "filterableTarget st c = Some x"
  shows "\<exists>caught. filterableEntry rec st (key, c) acc vis = filterableDescend rec caught key x acc vis"
proof -
  from assms obtain "value" where v: "deref st c = Some value"
    by (auto simp: filterableTarget_def split: option.splits)
  show ?thesis
  proof (cases "zdef value")
    case (ZodObject shape)
    with v assms show ?thesis
      by (auto simp: filterableEntry_def filterablePlain_def filterableTarget_def isZodObject_def)
  next
    case (ZodArray t)
    with v assms show ?thesis
      by (auto simp: filterableEntry_def filterablePlain_def filterableTarget_def isZodObject_def
          arrayOfObject_def split: if_splits)
  next
    case (ZodLazy g)
    with v assms show ?thesis
      by (auto simp: filterableEntry_def filterableTarget_def split: getter.splits option.splits if_splits)
  next
    case ZodOther
    with v assms show ?thesis by (simp add: filterableTarget_def)
  qed
qed

lemma prunedCaps_filterableEntries:
  assumes "filterableEntries rec st entries acc vis = Some (Inr t, vis')" "prunedCaps acc"
    and "\<And>x vs nested vs'. rec x vs = Some (Inr nested, vs') \<Longrightarrow> prunedCaps nested"
  shows "prunedCaps t"
proof (rule filterableEntries_invariant [where P = prunedCaps, OF assms(1) assms(2)])
  fix entry a vs a' vs'
  assume "prunedCaps a" and step: "filterableEntry rec st entry a vs = Some (Inr a', vs')"
  obtain k c where "entry = (k, c)" by (cases entry)
  with step filterableEntry_cases [of rec st k c a vs a' vs']
  show "prunedCaps a'"
    using \<open>prunedCaps a\<close> assms(3) by (auto simp: prunedCaps_assignNested prunedCaps_setNestedKey)
qed

lemma getFilterable_pruned: "getFilterable fuel st schema vis = Some (Inr t, vis') \<Longrightarrow> prunedCaps t"
proof (induction fuel arbitrary: schema vis t vis')
  case 0
  then show ?case by simp
next
  case (Suc fuel)
  show ?case
  proof (cases "schema \<in> vis")
    case True
    with Suc.prems show ?thesis by (simp add: prunedCaps_def)
  next
    case False
    with Suc.prems obtain shape where
      run: "filterableEntries (\<lambda>x vs. getFilterable fuel st x vs) st shape [] (insert schema vis) = Some (Inr t, vis')"
      by (auto split: option.splits zdef.splits)
    show ?thesis
      by (rule prunedCaps_filterableEntries [OF run]) (use Suc.IH in \<open>auto simp: prunedCaps_def\<close>)
  qed
qed

lemma sortableEntry_object:
  "deref st c = Some value \<Longrightarrow> isZodObject value \<Longrightarrow>
   sortableEntry rec st (key, c) acc = plainDescend rec key c acc"
  by (simp add: sortableEntry_def)

lemma sortableEntry_leaf:
  "deref st c = Some value \<Longrightarrow> \<not> isZodObject value \<Longrightarrow>
   sortableEntry rec st (key, c) acc =
     Some (Inr (if hasFlag sortable value then setNestedKey acc key else acc))"
  by (simp add: sortableEntry_def)

lemma sortableEntry_other:
  assumes "sortableEntry rec st (k, c) acc = Some (Inr a')" "x \<noteq> k"
  shows "map_of a' x = map_of acc x"
proof (cases "deref st c")
  case None
  with assms show ?thesis by (simp add: sortableEntry_def)
next
  case (Some "value")
  show ?thesis
  proof (cases "isZodObject value")
    case True
    with assms(1) Some have "plainDescend rec k c acc = Some (Inr a')"
      by (simp add: sortableEntry_object)
    then obtain nested where "a' = assignNested k nested acc"
      using plainDescend_lookup by blast
    with assms(2) show ?thesis by (simp add: assignNested_lookup)
  next
    case False
    with assms sortableEntry_leaf [OF Some False, of rec k acc] show ?thesis
      by (auto simp: setNestedKey_lookup split: if_splits)
  qed
qed

lemma filterableDescend_taken:
  assumes "filterableDescend rec caught key x acc vis = Some (Inr a', vis')"
    and "x \<notin> vis" and "rec x vis = Some (Inr nested, v2)"
  shows "a' = assignNested key nested acc"
  using assms by (simp add: filterableDescend_def)

lemma filterableDescend_skipped:
  assumes "filterableDescend rec caught key x acc vis = Some (Inr a', vis')"
    and "x \<in> vis \<or> (\<forall>nested v2. rec x vis \<noteq> Some (Inr nested, v2))"
  shows "a' = acc"
  using assms
  by (auto simp: filterableDescend_def split: if_splits option.splits sum.splits prod.splits)

lemma getFilterable_visited:
  "x \<in> vs \<Longrightarrow> getFilterable fuel st x vs = Some (Inr nested, v2) \<Longrightarrow> nested = []"
  by (cases fuel) simp_all

lemma queryableEntry_other_or_true:
  assumes "queryableEntry rec st (k, c) acc = Some (Inr a')" "x \<noteq> k"
  shows "map_of a' x = map_of acc x \<or> map_of a' x = Some CTrue"
proof (cases "deref st c")
  case None
  with assms show ?thesis by (simp add: queryableEntry_def)
next
  case (Some "value")
  show ?thesis
  proof (cases "isZodObject value")
    case True
    with assms(1) Some have "plainDescend rec k c acc = Some (Inr a')"
      by (simp add: queryableEntry_object)
    then obtain nested where "a' = assignNested k nested acc"
      using plainDescend_lookup by blast
    with assms(2) show ?thesis by (simp add: assignNested_lookup)
  next
    case False
    from assms(1) queryableEntry_leaf [OF Some False, of rec k acc]
    have a': "a' = queryableLeaf k value acc" by simp
    show ?thesis
      unfolding a' queryableLeaf_lookup by (auto split: option.splits)
  qed
qed

lemma keys_map_of: "key \<in> fst ` set t \<longleftrightarrow> map_of t key \<noteq> None"
  by (simp add: map_of_eq_None_iff)

text \<open>Filterable: the entry of a child with a target, between the entries before and after it.\<close>

lemma getFilterable_child:
  assumes root: "deref st schema = Some node" "zdef node = ZodObject (pre @ (key, c) # post)"
    and dist: "distinct (map fst (pre @ (key, c) # post))"
    and new: "schema \<notin> vis"
    and run: "getFilterable (Suc fuel) st schema vis = Some (Inr t, vis')"
    and before: "filterableEntries (\<lambda>x vs. getFilterable fuel st x vs) st pre [] (insert schema vis) = Some (Inr a1, v1)"
    and target: "filterableTarget st c = Some x"
  obtains caught a2 v2 where
    "filterableDescend (\<lambda>x vs. getFilterable fuel st x vs) caught key x a1 v1 = Some (Inr a2, v2)"
    and "map_of a1 key = None" and "map_of t key = map_of a2 key"
proof -
  let ?rec = "\<lambda>x vs. getFilterable fuel st x vs"
  from root new run
  have "filterableEntries ?rec st (pre @ (key, c) # post) [] (insert schema vis) = Some (Inr t, vis')"
    by simp
  then obtain b1 w1 a2 v2 where pre: "filterableEntries ?rec st pre [] (insert schema vis) = Some (Inr b1, w1)"
    and entry: "filterableEntry ?rec st (key, c) b1 w1 = Some (Inr a2, v2)"
    and post: "filterableEntries ?rec st post a2 v2 = Some (Inr t, vis')"
    by (rule filterableEntries_split)
  from pre before have same: "b1 = a1" "w1 = v1" by simp_all
  from dist have others: "\<forall>(k, c') \<in> set pre. k \<noteq> key" "\<forall>(k, c') \<in> set post. k \<noteq> key"
    by (rule distinct_keys_split)+
  have untouched: "map_of a' key = X"
    if "e \<in> set pre \<or> e \<in> set post" "map_of a key = X" "filterableEntry ?rec st e a vs = Some (Inr a', vs')"
    for e a a' vs vs' X
  proof -
    obtain k c' where kc: "e = (k, c')" by (cases e)
    with that(1) others have "key \<noteq> k" by auto
    with that(2,3) kc filterableEntry_other [of ?rec st k c' a vs a' vs' key] show ?thesis by simp
  qed
  have a1: "map_of a1 key = None"
  proof (rule filterableEntries_invariant [where P = "\<lambda>a. map_of a key = None", OF before])
    show "map_of [] key = None" by simp
  next
    fix e a vs a' vs'
    assume "e \<in> set pre" "map_of a key = None" "filterableEntry ?rec st e a vs = Some (Inr a', vs')"
    then show "map_of a' key = None" using untouched [of e a None vs a' vs'] by simp
  qed
  from filterableEntry_target [OF target, of ?rec key a1 v1] entry same
  obtain caught where desc: "filterableDescend ?rec caught key x a1 v1 = Some (Inr a2, v2)"
    by auto
  have "map_of t key = map_of a2 key"
  proof (rule filterableEntries_invariant [where P = "\<lambda>a. map_of a key = map_of a2 key", OF post])
    show "map_of a2 key = map_of a2 key" by simp
  next
    fix e a vs a' vs'
    assume "e \<in> set post" "map_of a key = map_of a2 key" "filterableEntry ?rec st e a vs = Some (Inr a', vs')"
    then show "map_of a' key = map_of a2 key" using untouched [of e a "map_of a2 key" vs a' vs'] by simp
  qed
  with desc a1 show ?thesis by (rule that)
qed

lemma getFilterable_child_taken:
  assumes "deref st schema = Some node" "zdef node = ZodObject (pre @ (key, c) # post)"
    and "distinct (map fst (pre @ (key, c) # post))" and "schema \<notin> vis"
    and "getFilterable (Suc fuel) st schema vis = Some (Inr t, vis')"
    and "filterableEntries (\<lambda>x vs. getFilterable fuel st x vs) st pre [] (insert schema vis) = Some (Inr a1, v1)"
    and "filterableTarget st c = Some x"
    and "x \<notin> v1" and "getFilterable fuel st x v1 = Some (Inr nested, v2)"
  shows "map_of t key = (if nested \<noteq> [] then Some (CTree nested) else None)"
proof -
  from assms(1-7) obtain caught a2 w2 where
    desc: "filterableDescend (\<lambda>x vs. getFilterable fuel st x vs) caught key x a1 v1 = Some (Inr a2, w2)"
    and a1: "map_of a1 key = None" and t: "map_of t key = map_of a2 key"
    by (rule getFilterable_child)
  from filterableDescend_taken [OF desc assms(8)] assms(9) have "a2 = assignNested key nested a1"
    by simp
  with a1 t show ?thesis by (simp add: assignNested_lookup)
qed

lemma getFilterable_child_present:
  assumes "deref st schema = Some node" "zdef node = ZodObject (pre @ (key, c) # post)"
    and "distinct (map fst (pre @ (key, c) # post))" and "schema \<notin> vis"
    and "getFilterable (Suc fuel) st schema vis = Some (Inr t, vis')"
    and "filterableEntries (\<lambda>x vs. getFilterable fuel st x vs) st pre [] (insert schema vis) = Some (Inr a1, v1)"
    and "filterableTarget st c = Some x"
  shows "key \<in> fst ` set t \<longleftrightarrow>
         (\<exists>nested v2. getFilterable fuel st x v1 = Some (Inr nested, v2) \<and> nested \<noteq> [])"
proof -
  from assms obtain caught a2 w2 where
    desc: "filterableDescend (\<lambda>x vs. getFilterable fuel st x vs) caught key x a1 v1 = Some (Inr a2, w2)"
    and a1: "map_of a1 key = None" and t: "map_of t key = map_of a2 key"
    by (rule getFilterable_child)
  show ?thesis
  proof (cases "x \<notin> v1 \<and> (\<exists>nested v2. getFilterable fuel st x v1 = Some (Inr nested, v2))")
    case True
    then obtain nested w where r: "getFilterable fuel st x v1 = Some (Inr nested, w)" by blast
    from filterableDescend_taken [OF desc _ r] True have "a2 = assignNested key nested a1" by simp
    with a1 t r show ?thesis by (simp add: keys_map_of assignNested_lookup)
  next
    case False
    then have "a2 = a1" using filterableDescend_skipped [OF desc] by blast
    with a1 t have absent: "key \<notin> fst ` set t" by (simp add: keys_map_of)
    have "nested = []" if "getFilterable fuel st x v1 = Some (Inr nested, v2)" for nested v2
      using that False getFilterable_visited [of x v1 fuel st nested v2] by blast
    with absent show ?thesis by blast
  qed
qed

text \<open>Filterable: the entry of a child that is neither lazy nor composite.\<close>

lemma filterableEntry_leaf:
  assumes "deref st c = Some child" "filterableTarget st c = None" "\<not> isZodLazy child"
  shows "filterableEntry rec st (key, c) acc vis =
           Some (Inr (if hasFlag filterable child then setNestedKey acc key else acc), vis)"
  using assms
  by (auto simp: filterableEntry_def filterablePlain_def filterableTarget_def isZodLazy_def
      isZodObject_def arrayOfObject_def split: zdef.splits if_splits)

lemma getFilterable_leaf:
  assumes root: "deref st schema = Some node" "zdef node = ZodObject (pre @ (key, c) # post)"
    and dist: "distinct (map fst (pre @ (key, c) # post))"
    and child: "deref st c = Some child"
    and new: "schema \<notin> vis"
    and run: "getFilterable (Suc fuel) st schema vis = Some (Inr t, vis')"
    and leaf: "filterableTarget st c = None" "\<not> isZodLazy child"
  shows "map_of t key = (if hasFlag filterable child then Some CTrue else None)"
proof -
  let ?rec = "\<lambda>x vs. getFilterable fuel st x vs"
  from root new run
  have "filterableEntries ?rec st (pre @ (key, c) # post) [] (insert schema vis) = Some (Inr t, vis')"
    by simp
  then obtain a1 v1 a2 v2 where pre: "filterableEntries ?rec st pre [] (insert schema vis) = Some (Inr a1, v1)"
    and entry: "filterableEntry ?rec st (key, c) a1 v1 = Some (Inr a2, v2)"
    and post: "filterableEntries ?rec st post a2 v2 = Some (Inr t, vis')"
    by (rule filterableEntries_split)
  from dist have others: "\<forall>(k, c') \<in> set pre. k \<noteq> key" "\<forall>(k, c') \<in> set post. k \<noteq> key"
    by (rule distinct_keys_split)+
  have untouched: "map_of a' key = X"
    if "e \<in> set pre \<or> e \<in> set post" "map_of a key = X" "filterableEntry ?rec st e a vs = Some (Inr a', vs')"
    for e a a' vs vs' X
  proof -
    obtain k c' where kc: "e = (k, c')" by (cases e)
    with that(1) others have "key \<noteq> k" by auto
    with that(2,3) kc filterableEntry_other [of ?rec st k c' a vs a' vs' key] show ?thesis by simp
  qed
  have a1: "map_of a1 key = None"
  proof (rule filterableEntries_invariant [where P = "\<lambda>a. map_of a key = None", OF pre])
    show "map_of [] key = None" by simp
  next
    fix e a vs a' vs'
    assume "e \<in> set pre" "map_of a key = None" "filterableEntry ?rec st e a vs = Some (Inr a', vs')"
    then show "map_of a' key = None" using untouched [of e a None vs a' vs'] by simp
  qed
  from entry filterableEntry_leaf [OF child leaf, of ?rec key a1 v1]
  have a2: "a2 = (if hasFlag filterable child then setNestedKey a1 key else a1)" by simp
  have "map_of t key = map_of a2 key"
  proof (rule filterableEntries_invariant [where P = "\<lambda>a. map_of a key = map_of a2 key", OF post])
    show "map_of a2 key = map_of a2 key" by simp
  next
    fix e a vs a' vs'
    assume "e \<in> set post" "map_of a key = map_of a2 key" "filterableEntry ?rec st e a vs = Some (Inr a', vs')"
    then show "map_of a' key = map_of a2 key" using untouched [of e a "map_of a2 key" vs a' vs'] by simp
  qed
  with a1 a2 show ?thesis by (simp add: setNestedKey_lookup)
qed

lemma getSortable_child:
  assumes root: "deref st schema = Some node" "zdef node = ZodObject (pre @ (key, c) # post)"
    and dist: "distinct (map fst (pre @ (key, c) # post))"
    and child: "deref st c = Some value"
    and run: "getSortable (Suc fuel) st schema = Some (Inr t)"
  shows "if isZodObject value
         then (\<exists>nested. getSortable fuel st c = Some (Inr nested)
                 \<and> map_of t key = (if nested \<noteq> [] then Some (CTree nested) else None))
         else map_of t key = (if hasFlag sortable value then Some CTrue else None)"
proof -
  let ?rec = "\<lambda>x. getSortable fuel st x"
  let ?body = "sortableEntry ?rec st"
  from root run have "plainEntries ?body (pre @ (key, c) # post) [] = Some (Inr t)" by simp
  then obtain a1 a2 where pre: "plainEntries ?body pre [] = Some (Inr a1)"
    and entry: "?body (key, c) a1 = Some (Inr a2)"
    and post: "plainEntries ?body post a2 = Some (Inr t)"
    by (rule plainEntries_split)
  from dist have others: "\<forall>(k, c') \<in> set pre. k \<noteq> key" "\<forall>(k, c') \<in> set post. k \<noteq> key"
    by (rule distinct_keys_split)+
  have untouched: "map_of a' key = X"
    if "e \<in> set pre \<or> e \<in> set post" "map_of a key = X" "?body e a = Some (Inr a')" for e a a' X
  proof -
    obtain k c' where kc: "e = (k, c')" by (cases e)
    with that(1) others have "key \<noteq> k" by auto
    with that(2,3) kc sortableEntry_other [of ?rec st k c' a a' key] show ?thesis by simp
  qed
  have a1: "map_of a1 key = None"
  proof (rule plainEntries_invariant [where P = "\<lambda>a. map_of a key = None", OF pre])
    show "map_of [] key = None" by simp
  next
    fix e a a' assume "e \<in> set pre" "map_of a key = None" "?body e a = Some (Inr a')"
    then show "map_of a' key = None" using untouched [of e a None a'] by simp
  qed
  have t: "map_of t key = map_of a2 key"
  proof (rule plainEntries_invariant [where P = "\<lambda>a. map_of a key = map_of a2 key", OF post])
    show "map_of a2 key = map_of a2 key" by simp
  next
    fix e a a' assume "e \<in> set post" "map_of a key = map_of a2 key" "?body e a = Some (Inr a')"
    then show "map_of a' key = map_of a2 key" using untouched [of e a "map_of a2 key" a'] by simp
  qed
  show ?thesis
  proof (cases "isZodObject value")
    case True
    with entry child have "plainDescend ?rec key c a1 = Some (Inr a2)"
      by (simp add: sortableEntry_object)
    then obtain nested where "getSortable fuel st c = Some (Inr nested)" "a2 = assignNested key nested a1"
      using plainDescend_lookup by blast
    with True a1 t show ?thesis by (simp add: assignNested_lookup)
  next
    case False
    from entry sortableEntry_leaf [OF child False, of ?rec key a1]
    have "a2 = (if hasFlag sortable value then setNestedKey a1 key else a1)" by simp
    with False a1 t show ?thesis by (simp add: setNestedKey_lookup)
  qed
qed

lemma getQueryable_child:
  assumes root: "deref st schema = Some node" "zdef node = ZodObject (pre @ (key, c) # post)"
    and dist: "distinct (map fst (pre @ (key, c) # post))"
    and child: "deref st c = Some value"
    and run: "getQueryable (Suc fuel) st schema = Some (Inr t)"
  shows "if isZodObject value
         then (\<exists>nested. getQueryable fuel st c = Some (Inr nested)
                 \<and> (nested \<noteq> [] \<longrightarrow> key \<in> fst ` set t)
                 \<and> (\<forall>n. map_of t key = Some (CTree n) \<longrightarrow> n = nested \<and> nested \<noteq> [])
                 \<and> ((\<forall>(k', c') \<in> set (pre @ (key, c) # post). key \<notin> queryableAliases st c') \<longrightarrow>
                      map_of t key = (if nested \<noteq> [] then Some (CTree nested) else None)))
         else (\<forall>n. map_of t key \<noteq> Some (CTree n))"
proof -
  let ?rec = "\<lambda>x. getQueryable fuel st x"
  let ?body = "queryableEntry ?rec st"
  from root run have whole: "plainEntries ?body (pre @ (key, c) # post) [] = Some (Inr t)" by simp
  then obtain a1 a2 where pre: "plainEntries ?body pre [] = Some (Inr a1)"
    and entry: "?body (key, c) a1 = Some (Inr a2)"
    and post: "plainEntries ?body post a2 = Some (Inr t)"
    by (rule plainEntries_split)
  from dist have others: "\<forall>(k, c') \<in> set pre. k \<noteq> key" "\<forall>(k, c') \<in> set post. k \<noteq> key"
    by (rule distinct_keys_split)+
  have step: "map_of a' key = map_of a key \<or> map_of a' key = Some CTrue"
    if "e \<in> set pre \<or> e \<in> set post" "?body e a = Some (Inr a')" for e a a'
  proof -
    obtain k c' where kc: "e = (k, c')" by (cases e)
    with that(1) others have "key \<noteq> k" by auto
    with that(2) kc queryableEntry_other_or_true [of ?rec st k c' a a' key] show ?thesis by simp
  qed
  have a1: "\<forall>n. map_of a1 key \<noteq> Some (CTree n)"
  proof (rule plainEntries_invariant [where P = "\<lambda>a. \<forall>n. map_of a key \<noteq> Some (CTree n)", OF pre])
    show "\<forall>n. map_of [] key \<noteq> Some (CTree n)" by simp
  next
    fix e a a' assume "e \<in> set pre" "\<forall>n. map_of a key \<noteq> Some (CTree n)" "?body e a = Some (Inr a')"
    then show "\<forall>n. map_of a' key \<noteq> Some (CTree n)" using step [of e a a'] by auto
  qed
  show ?thesis
  proof (cases "isZodObject value")
    case True
    with entry child have "plainDescend ?rec key c a1 = Some (Inr a2)"
      by (simp add: queryableEntry_object)
    then obtain nested where nested: "getQueryable fuel st c = Some (Inr nested)"
      and a2: "a2 = assignNested key nested a1"
      using plainDescend_lookup by blast
    have present: "key \<in> fst ` set t" if "nested \<noteq> []"
    proof -
      have "map_of t key \<noteq> None"
      proof (rule plainEntries_invariant [where P = "\<lambda>a. map_of a key \<noteq> None", OF post])
        show "map_of a2 key \<noteq> None" using that by (simp add: a2 assignNested_lookup)
      next
        fix e a a' assume "e \<in> set post" "map_of a key \<noteq> None" "?body e a = Some (Inr a')"
        then show "map_of a' key \<noteq> None" using step [of e a a'] by auto
      qed
      then show ?thesis by (simp add: keys_map_of)
    qed
    have tree: "\<forall>n. map_of t key = Some (CTree n) \<longrightarrow> n = nested \<and> nested \<noteq> []"
    proof (rule plainEntries_invariant
        [where P = "\<lambda>a. \<forall>n. map_of a key = Some (CTree n) \<longrightarrow> n = nested \<and> nested \<noteq> []", OF post])
      show "\<forall>n. map_of a2 key = Some (CTree n) \<longrightarrow> n = nested \<and> nested \<noteq> []"
        using a1 by (simp add: a2 assignNested_lookup)
    next
      fix e a a'
      assume "e \<in> set post" "\<forall>n. map_of a key = Some (CTree n) \<longrightarrow> n = nested \<and> nested \<noteq> []"
        "?body e a = Some (Inr a')"
      then show "\<forall>n. map_of a' key = Some (CTree n) \<longrightarrow> n = nested \<and> nested \<noteq> []"
        using step [of e a a'] by auto
    qed
    have exact: "map_of t key = (if nested \<noteq> [] then Some (CTree nested) else None)"
      if free: "\<forall>(k', c') \<in> set (pre @ (key, c) # post). key \<notin> queryableAliases st c'"
    proof -
      have untouched: "map_of a' key = X"
        if "e \<in> set pre \<or> e \<in> set post" "map_of a key = X" "?body e a = Some (Inr a')" for e a a' X
      proof -
        obtain k c' where kc: "e = (k, c')" by (cases e)
        with that(1) others have "key \<noteq> k" by auto
        moreover from that(1) kc free have "key \<notin> queryableAliases st c'" by auto
        ultimately show ?thesis
          using queryableEntry_other [of ?rec st k c' a a' key] that(2,3) kc by simp
      qed
      have "map_of a1 key = None"
      proof (rule plainEntries_invariant [where P = "\<lambda>a. map_of a key = None", OF pre])
        show "map_of [] key = None" by simp
      next
        fix e a a' assume "e \<in> set pre" "map_of a key = None" "?body e a = Some (Inr a')"
        then show "map_of a' key = None" using untouched [of e a None a'] by simp
      qed
      then have "map_of a2 key = (if nested \<noteq> [] then Some (CTree nested) else None)"
        by (simp add: a2 assignNested_lookup)
      moreover have "map_of t key = map_of a2 key"
      proof (rule plainEntries_invariant [where P = "\<lambda>a. map_of a key = map_of a2 key", OF post])
        show "map_of a2 key = map_of a2 key" by simp
      next
        fix e a a' assume "e \<in> set post" "map_of a key = map_of a2 key" "?body e a = Some (Inr a')"
        then show "map_of a' key = map_of a2 key" using untouched [of e a "map_of a2 key" a'] by simp
      qed
      ultimately show ?thesis by simp
    qed
    have "\<exists>nested. getQueryable fuel st c = Some (Inr nested)
                 \<and> (nested \<noteq> [] \<longrightarrow> key \<in> fst ` set t)
                 \<and> (\<forall>n. map_of t key = Some (CTree n) \<longrightarrow> n = nested \<and> nested \<noteq> [])
                 \<and> ((\<forall>(k', c') \<in> set (pre @ (key, c) # post). key \<notin> queryableAliases st c') \<longrightarrow>
                      map_of t key = (if nested \<noteq> [] then Some (CTree nested) else None))"
    proof (intro exI [of _ nested] conjI impI)
      show "getQueryable fuel st c = Some (Inr nested)" by (rule nested)
      show "key \<in> fst ` set t" if "nested \<noteq> []" using that by (rule present)
      show "\<forall>n. map_of t key = Some (CTree n) \<longrightarrow> n = nested \<and> nested \<noteq> []" by (rule tree)
      show "map_of t key = (if nested \<noteq> [] then Some (CTree nested) else None)"
        if "\<forall>(k', c') \<in> set (pre @ (key, c) # post). key \<notin> queryableAliases st c'"
        using that by (rule exact)
    qed
    with True show ?thesis by (simp only: if_True)
  next
    case False
    from entry queryableEntry_leaf [OF child False, of ?rec key a1]
    have a2: "a2 = queryableLeaf key value a1" by simp
    have "\<forall>n. map_of a2 key \<noteq> Some (CTree n)"
      using a1 unfolding a2 queryableLeaf_lookup by (auto split: option.splits)
    then have "\<forall>n. map_of t key \<noteq> Some (CTree n)"
    proof (rule plainEntries_invariant [where P = "\<lambda>a. \<forall>n. map_of a key \<noteq> Some (CTree n)", OF post])
      fix e a a' assume "e \<in> set post" "\<forall>n. map_of a key \<noteq> Some (CTree n)" "?body e a = Some (Inr a')"
      then show "\<forall>n. map_of a' key \<noteq> Some (CTree n)" using step [of e a a'] by auto
    qed
    with False show ?thesis by simp
  qed
qed

section \<open>Descending into composite children\<close>

text \<open>
  C3, as stated, fails. In \<open>arraySchema\<close> the plain object \<^verbatim>\<open>plain\<close> and the array of
  objects \<^verbatim>\<open>items\<close> each hold a leaf with all three flags. \<open>getFilterable\<close> reports both
  children; \<open>getSortable\<close> and \<open>getQueryable\<close> report \<^verbatim>\<open>plain\<close> only, although the object
  behind \<^verbatim>\<open>items\<close> has a non-empty result of its own: neither function has a branch for
  arrays, and the repository's test of \<open>getQueryable\<close> on a schema with an array of objects
  expects this result (\<^verbatim>\<open>Currently, getQueryable doesn't process array items\<close>).
\<close>

theorem traversals_descend_counterexample:
  "getFilterable 3 arraySchema 4 {} =
     Some (Inr [(''plain'', CTree [(''a'', CTrue)]), (''items'', CTree [(''b'', CTrue)])], {1, 2, 4})
   \<and> getSortable 3 arraySchema 4 = Some (Inr [(''plain'', CTree [(''a'', CTrue)])])
   \<and> getQueryable 3 arraySchema 4 = Some (Inr [(''plain'', CTree [(''a'', CTrue)])])
   \<and> getSortable 2 arraySchema 2 = Some (Inr [(''b'', CTrue)])
   \<and> getQueryable 2 arraySchema 2 = Some (Inr [(''b'', CTrue)])
   \<and> map_of [(''plain'', CTree [(''a'', CTrue)])] ''items'' = None"
  by code_simp

text \<open>
  C3, amended. \<open>getFilterable\<close> descends into a child that is a plain object, an array of
  objects, or a lazy node resolving to an object or to an array of objects
  (\<open>filterableTarget\<close>), when the object to descend into has not been visited by then, and
  holds the nested result under the child's key exactly when it is not empty; under the key
  of a child that is neither lazy nor composite it holds \<^verbatim>\<open>true\<close> exactly when the child
  carries the filterable flag. \<open>getSortable\<close> and \<open>getQueryable\<close> descend into every plain
  object child. For a child that is neither an object nor a lazy node, arrays of objects
  included, \<open>getSortable\<close> holds \<^verbatim>\<open>true\<close> under the key exactly when the child itself
  carries the sortable flag, and \<open>getQueryable\<close> never holds a nested tree under the key:
  leaves inside an array of objects do not appear. The statement is silent on the lazy
  children of \<open>getSortable\<close> and \<open>getQueryable\<close>.
\<close>

theorem traversals_descend:
  assumes "deref st schema = Some node" and "zdef node = ZodObject (pre @ (key, c) # post)"
    and "distinct (map fst (pre @ (key, c) # post))" and "deref st c = Some child"
  shows "(schema \<notin> vis \<and> getFilterable (Suc fuel) st schema vis = Some (Inr tf, vis')
           \<and> filterableEntries (\<lambda>x vs. getFilterable fuel st x vs) st pre [] (insert schema vis)
               = Some (Inr a1, v1)
           \<and> filterableTarget st c = Some x \<and> x \<notin> v1
           \<and> getFilterable fuel st x v1 = Some (Inr nested, v2) \<longrightarrow>
          map_of tf key = (if nested \<noteq> [] then Some (CTree nested) else None))
       \<and> (schema \<notin> vis \<and> getFilterable (Suc fuel) st schema vis = Some (Inr tf, vis')
           \<and> filterableTarget st c = None \<and> \<not> isZodLazy child \<longrightarrow>
          map_of tf key = (if hasFlag filterable child then Some CTrue else None))
       \<and> (getSortable (Suc fuel) st schema = Some (Inr ts) \<longrightarrow>
            (isZodObject child \<longrightarrow>
               (\<exists>inner. getSortable fuel st c = Some (Inr inner)
                  \<and> map_of ts key = (if inner \<noteq> [] then Some (CTree inner) else None)))
            \<and> (\<not> isZodObject child \<and> \<not> isZodLazy child \<longrightarrow>
                 map_of ts key = (if hasFlag sortable child then Some CTrue else None)))
       \<and> (getQueryable (Suc fuel) st schema = Some (Inr tq) \<longrightarrow>
            (isZodObject child \<longrightarrow>
               (\<exists>inner. getQueryable fuel st c = Some (Inr inner)
                  \<and> (inner \<noteq> [] \<longrightarrow> key \<in> fst ` set tq)
                  \<and> (\<forall>n. map_of tq key = Some (CTree n) \<longrightarrow> n = inner \<and> inner \<noteq> [])))
            \<and> (\<not> isZodObject child \<and> \<not> isZodLazy child \<longrightarrow>
                 (\<forall>n. map_of tq key \<noteq> Some (CTree n))))"
proof (intro conjI impI)
  assume "schema \<notin> vis \<and> getFilterable (Suc fuel) st schema vis = Some (Inr tf, vis')
           \<and> filterableEntries (\<lambda>x vs. getFilterable fuel st x vs) st pre [] (insert schema vis)
               = Some (Inr a1, v1)
           \<and> filterableTarget st c = Some x \<and> x \<notin> v1
           \<and> getFilterable fuel st x v1 = Some (Inr nested, v2)"
  then show "map_of tf key = (if nested \<noteq> [] then Some (CTree nested) else None)"
    using getFilterable_child_taken [OF assms(1,2,3)] by blast
next
  assume "schema \<notin> vis \<and> getFilterable (Suc fuel) st schema vis = Some (Inr tf, vis')
           \<and> filterableTarget st c = None \<and> \<not> isZodLazy child"
  then show "map_of tf key = (if hasFlag filterable child then Some CTrue else None)"
    using getFilterable_leaf [OF assms] by blast
next
  assume "getSortable (Suc fuel) st schema = Some (Inr ts)" and "isZodObject child"
  then show "\<exists>inner. getSortable fuel st c = Some (Inr inner)
                  \<and> map_of ts key = (if inner \<noteq> [] then Some (CTree inner) else None)"
    using getSortable_child [OF assms] by (simp only: if_True)
next
  assume "getSortable (Suc fuel) st schema = Some (Inr ts)" and "\<not> isZodObject child \<and> \<not> isZodLazy child"
  then show "map_of ts key = (if hasFlag sortable child then Some CTrue else None)"
    using getSortable_child [OF assms] by simp
next
  assume run: "getQueryable (Suc fuel) st schema = Some (Inr tq)" and obj: "isZodObject child"
  with getQueryable_child [OF assms run] obtain inner where
      "getQueryable fuel st c = Some (Inr inner)" "inner \<noteq> [] \<longrightarrow> key \<in> fst ` set tq"
      "\<forall>n. map_of tq key = Some (CTree n) \<longrightarrow> n = inner \<and> inner \<noteq> []"
    by (simp only: if_True) blast
  then show "\<exists>inner. getQueryable fuel st c = Some (Inr inner)
                     \<and> (inner \<noteq> [] \<longrightarrow> key \<in> fst ` set tq)
                     \<and> (\<forall>n. map_of tq key = Some (CTree n) \<longrightarrow> n = inner \<and> inner \<noteq> [])"
    by blast
next
  assume run: "getQueryable (Suc fuel) st schema = Some (Inr tq)"
    and leaf: "\<not> isZodObject child \<and> \<not> isZodLazy child"
  with getQueryable_child [OF assms run] show "\<forall>n. map_of tq key \<noteq> Some (CTree n)" by simp
qed

theorem traversals_descend_witness:
  "deref compositeSchema 6 =
     Some \<lparr>zdef = ZodObject ([(''plain'', 1)] @ (''items'', 3) # [(''later'', 5)]), ext = Some noFlags\<rparr>
   \<and> distinct (map fst ([(''plain'', 1 :: ref)] @ (''items'', 3) # [(''later'', 5)]))
   \<and> deref compositeSchema 3 = Some \<lparr>zdef = ZodArray 2, ext = Some noFlags\<rparr>
   \<and> (6 :: ref) \<notin> {}
   \<and> getFilterable (Suc 2) compositeSchema 6 {} =
       Some (Inr [(''plain'', CTree [(''a'', CTrue)]), (''items'', CTree [(''b'', CTrue)]),
                  (''later'', CTree [(''c'', CTrue)])], {1, 2, 4, 6})
   \<and> filterableEntries (\<lambda>x vs. getFilterable 2 compositeSchema x vs) compositeSchema [(''plain'', 1)] []
         (insert 6 {}) = Some (Inr [(''plain'', CTree [(''a'', CTrue)])], {1, 6})
   \<and> filterableTarget compositeSchema 3 = Some 2 \<and> (2 :: ref) \<notin> {1, 6}
   \<and> getFilterable 2 compositeSchema 2 {1, 6} = Some (Inr [(''b'', CTrue)], {1, 2, 6})
   \<and> map_of [(''plain'', CTree [(''a'', CTrue)]), (''items'', CTree [(''b'', CTrue)]),
              (''later'', CTree [(''c'', CTrue)])] ''items'' = Some (CTree [(''b'', CTrue)])
   \<and> getSortable (Suc 2) compositeSchema 6 = Some (Inr [(''plain'', CTree [(''a'', CTrue)])])
   \<and> getQueryable (Suc 2) compositeSchema 6 = Some (Inr [(''plain'', CTree [(''a'', CTrue)])])
   \<and> \<not> isZodObject \<lparr>zdef = ZodArray 2, ext = Some noFlags\<rparr>
   \<and> \<not> isZodLazy \<lparr>zdef = ZodArray 2, ext = Some noFlags\<rparr>
   \<and> map_of [(''plain'', CTree [(''a'', CTrue)])] ''items'' = None
   \<and> deref compositeSchema 1 = Some \<lparr>zdef = ZodObject [(''a'', 0)], ext = Some noFlags\<rparr>
   \<and> isZodObject \<lparr>zdef = ZodObject [(''a'', 0)], ext = Some noFlags\<rparr>
   \<and> getSortable 2 compositeSchema 1 = Some (Inr [(''a'', CTrue)])
   \<and> getQueryable 2 compositeSchema 1 = Some (Inr [(''a'', CTrue)])
   \<and> map_of [(''plain'', CTree [(''a'', CTrue)])] ''plain'' = Some (CTree [(''a'', CTrue)])
   \<and> deref flagSchema 3 =
       Some \<lparr>zdef = ZodObject ([] @ (''f'', 0) # [(''s'', 1), (''q'', 2)]), ext = Some noFlags\<rparr>
   \<and> distinct (map fst ([] @ (''f'', 0 :: ref) # [(''s'', 1), (''q'', 2)]))
   \<and> deref flagSchema 0 = Some \<lparr>zdef = ZodOther, ext = Some (noFlags\<lparr>filterable := True\<rparr>)\<rparr>
   \<and> (3 :: ref) \<notin> {}
   \<and> filterableTarget flagSchema 0 = None
   \<and> \<not> isZodObject \<lparr>zdef = ZodOther, ext = Some (noFlags\<lparr>filterable := True\<rparr>)\<rparr>
   \<and> \<not> isZodLazy \<lparr>zdef = ZodOther, ext = Some (noFlags\<lparr>filterable := True\<rparr>)\<rparr>
   \<and> hasFlag filterable \<lparr>zdef = ZodOther, ext = Some (noFlags\<lparr>filterable := True\<rparr>)\<rparr>
   \<and> \<not> hasFlag sortable \<lparr>zdef = ZodOther, ext = Some (noFlags\<lparr>filterable := True\<rparr>)\<rparr>
   \<and> getFilterable (Suc 1) flagSchema 3 {} = Some (Inr [(''f'', CTrue)], {3})
   \<and> getSortable (Suc 1) flagSchema 3 = Some (Inr [(''s'', CTrue)])
   \<and> getQueryable (Suc 1) flagSchema 3 = Some (Inr [(''q'', CTrue)])
   \<and> map_of [(''f'', CTrue)] ''f'' = Some CTrue
   \<and> map_of [(''s'', CTrue)] ''f'' = None
   \<and> (\<forall>n. map_of [(''q'', CTrue)] ''f'' \<noteq> Some (CTree n))"
proof -
  have root: "deref compositeSchema 6 =
     Some \<lparr>zdef = ZodObject ([(''plain'', 1)] @ (''items'', 3) # [(''later'', 5)]), ext = Some noFlags\<rparr>"
    and items: "deref compositeSchema 3 = Some \<lparr>zdef = ZodArray 2, ext = Some noFlags\<rparr>"
    by (simp_all add: deref_def compositeSchema_def)
  have root': "deref compositeSchema 6 =
     Some \<lparr>zdef = ZodObject ([] @ (''plain'', 1) # [(''items'', 3), (''later'', 5)]), ext = Some noFlags\<rparr>"
    and plain: "deref compositeSchema 1 = Some \<lparr>zdef = ZodObject [(''a'', 0)], ext = Some noFlags\<rparr>"
    by (simp_all add: deref_def compositeSchema_def)
  have f: "getFilterable (Suc 2) compositeSchema 6 {} =
       Some (Inr [(''plain'', CTree [(''a'', CTrue)]), (''items'', CTree [(''b'', CTrue)]),
                  (''later'', CTree [(''c'', CTrue)])], {1, 2, 4, 6})"
    by code_simp
  have before: "filterableEntries (\<lambda>x vs. getFilterable 2 compositeSchema x vs) compositeSchema [(''plain'', 1)] []
         (insert 6 {}) = Some (Inr [(''plain'', CTree [(''a'', CTrue)])], {1, 6})"
    by code_simp
  have target: "filterableTarget compositeSchema 3 = Some 2"
    by code_simp
  have inner: "getFilterable 2 compositeSchema 2 {1, 6} = Some (Inr [(''b'', CTrue)], {1, 2, 6})"
    by code_simp
  have s: "getSortable (Suc 2) compositeSchema 6 = Some (Inr [(''plain'', CTree [(''a'', CTrue)])])"
    and s1: "getSortable 2 compositeSchema 1 = Some (Inr [(''a'', CTrue)])"
    by code_simp+
  have q: "getQueryable (Suc 2) compositeSchema 6 = Some (Inr [(''plain'', CTree [(''a'', CTrue)])])"
    and q1: "getQueryable 2 compositeSchema 1 = Some (Inr [(''a'', CTrue)])"
    by code_simp+
  have flagRoot: "deref flagSchema 3 =
       Some \<lparr>zdef = ZodObject ([] @ (''f'', 0) # [(''s'', 1), (''q'', 2)]), ext = Some noFlags\<rparr>"
    and flagLeaf: "deref flagSchema 0 = Some \<lparr>zdef = ZodOther, ext = Some (noFlags\<lparr>filterable := True\<rparr>)\<rparr>"
    by (simp_all add: deref_def flagSchema_def)
  have noTarget: "filterableTarget flagSchema 0 = None"
    by code_simp
  have ff: "getFilterable (Suc 1) flagSchema 3 {} = Some (Inr [(''f'', CTrue)], {3})"
    by code_simp
  have fs: "getSortable (Suc 1) flagSchema 3 = Some (Inr [(''s'', CTrue)])"
    by code_simp
  have fq: "getQueryable (Suc 1) flagSchema 3 = Some (Inr [(''q'', CTrue)])"
    by code_simp
  show ?thesis
    using traversals_descend [where pre = "[(''plain'', 1)]" and key = "''items''" and c = 3
        and post = "[(''later'', 5)]" and st = compositeSchema and schema = 6
        and vis = "{}" and fuel = 2 and x = 2
        and ?a1.0 = "[(''plain'', CTree [(''a'', CTrue)])]" and ?v1.0 = "{1, 6}"
        and nested = "[(''b'', CTrue)]" and ?v2.0 = "{1, 2, 6}"
        and tf = "[(''plain'', CTree [(''a'', CTrue)]), (''items'', CTree [(''b'', CTrue)]),
                   (''later'', CTree [(''c'', CTrue)])]"
        and vis' = "{1, 2, 4, 6}"
        and ts = "[(''plain'', CTree [(''a'', CTrue)])]" and tq = "[(''plain'', CTree [(''a'', CTrue)])]"]
      traversals_descend [where pre = "[]" and key = "''plain''" and c = 1
        and post = "[(''items'', 3), (''later'', 5)]" and st = compositeSchema and schema = 6
        and fuel = 2
        and ts = "[(''plain'', CTree [(''a'', CTrue)])]" and tq = "[(''plain'', CTree [(''a'', CTrue)])]"]
      traversals_descend [where pre = "[]" and key = "''f''" and c = 0
        and post = "[(''s'', 1), (''q'', 2)]" and st = flagSchema and schema = 3
        and vis = "{}" and fuel = 1 and tf = "[(''f'', CTrue)]" and vis' = "{3}"
        and ts = "[(''s'', CTrue)]" and tq = "[(''q'', CTrue)]"]
      root root' items plain f before target inner s s1 q q1 flagRoot flagLeaf noTarget ff fs fq
    by (simp add: isZodObject_def isZodLazy_def hasFlag_def noFlags_def)
qed

section \<open>The pruning invariant\<close>

text \<open>
  C2, as stated, fails on the equivalence. In \<open>aliasOverEmpty\<close> the object child
  \<^verbatim>\<open>profile\<close> has no queryable leaf, so its own result is empty, yet the result of the
  schema has the key \<^verbatim>\<open>profile\<close>: the alias of the leaf \<^verbatim>\<open>nick\<close> wrote it.
\<close>

theorem capability_trees_pruned_counterexample:
  "refIsZodObject aliasOverEmpty 1
   \<and> getQueryable 2 aliasOverEmpty 3 = Some (Inr [(''profile'', CTrue)])
   \<and> getQueryable 1 aliasOverEmpty 1 = Some (Inr [])
   \<and> ''profile'' \<in> fst ` set [(''profile'', CTrue)]"
  by code_simp

text \<open>
  C2, amended. Every value in a tree returned by \<open>getFilterable\<close>, \<open>getSortable\<close> or
  \<open>getQueryable\<close> is \<^verbatim>\<open>true\<close> or a non-empty nested tree (\<open>prunedCaps\<close>). The key of a
  composite child that the traversal descends into is present if and only if the recursive
  result for the child is not empty: for \<open>getFilterable\<close> the recursive result from the
  visited set reached before the child (empty for a visited node); for \<open>getSortable\<close> and
  \<open>getQueryable\<close> the result for a plain object child; and for \<open>getQueryable\<close> provided no
  child of the schema writes the key as a path alias.
\<close>

theorem capability_trees_pruned:
  assumes "deref st schema = Some node" and "zdef node = ZodObject (pre @ (key, c) # post)"
    and "distinct (map fst (pre @ (key, c) # post))" and "deref st c = Some child"
  shows "(getFilterable n st r vs = Some (Inr t0, vs') \<longrightarrow> prunedCaps t0)
       \<and> (getSortable n st r = Some (Inr t1) \<longrightarrow> prunedCaps t1)
       \<and> (getQueryable n st r = Some (Inr t2) \<longrightarrow> prunedCaps t2)
       \<and> (schema \<notin> vis \<and> getFilterable (Suc fuel) st schema vis = Some (Inr tf, vis')
           \<and> filterableEntries (\<lambda>x vs. getFilterable fuel st x vs) st pre [] (insert schema vis)
               = Some (Inr a1, v1)
           \<and> filterableTarget st c = Some x \<longrightarrow>
          (key \<in> fst ` set tf \<longleftrightarrow>
             (\<exists>nested v2. getFilterable fuel st x v1 = Some (Inr nested, v2) \<and> nested \<noteq> [])))
       \<and> (isZodObject child \<and> getSortable (Suc fuel) st schema = Some (Inr ts) \<longrightarrow>
          (key \<in> fst ` set ts \<longleftrightarrow> (\<exists>nested. getSortable fuel st c = Some (Inr nested) \<and> nested \<noteq> [])))
       \<and> (isZodObject child \<and> getQueryable (Suc fuel) st schema = Some (Inr tq)
           \<and> (\<forall>(k', c') \<in> set (pre @ (key, c) # post). key \<notin> queryableAliases st c') \<longrightarrow>
          (key \<in> fst ` set tq \<longleftrightarrow> (\<exists>nested. getQueryable fuel st c = Some (Inr nested) \<and> nested \<noteq> [])))"
proof (intro conjI impI)
  show "prunedCaps t0" if "getFilterable n st r vs = Some (Inr t0, vs')"
    using that by (rule getFilterable_pruned)
  show "prunedCaps t1" if "getSortable n st r = Some (Inr t1)"
    using that by (rule getSortable_pruned)
  show "prunedCaps t2" if "getQueryable n st r = Some (Inr t2)"
    using that by (rule getQueryable_pruned)
  show "key \<in> fst ` set tf \<longleftrightarrow>
             (\<exists>nested v2. getFilterable fuel st x v1 = Some (Inr nested, v2) \<and> nested \<noteq> [])"
    if "schema \<notin> vis \<and> getFilterable (Suc fuel) st schema vis = Some (Inr tf, vis')
           \<and> filterableEntries (\<lambda>x vs. getFilterable fuel st x vs) st pre [] (insert schema vis)
               = Some (Inr a1, v1)
           \<and> filterableTarget st c = Some x"
    using that getFilterable_child_present [OF assms(1,2,3)] by blast
  show "key \<in> fst ` set ts \<longleftrightarrow> (\<exists>nested. getSortable fuel st c = Some (Inr nested) \<and> nested \<noteq> [])"
    if h: "isZodObject child \<and> getSortable (Suc fuel) st schema = Some (Inr ts)"
  proof -
    from h getSortable_child [OF assms, of fuel ts] obtain inner where
      i: "getSortable fuel st c = Some (Inr inner)"
      "map_of ts key = (if inner \<noteq> [] then Some (CTree inner) else None)"
      by (simp only: if_True) blast
    then show ?thesis by (simp add: keys_map_of)
  qed
  show "key \<in> fst ` set tq \<longleftrightarrow> (\<exists>nested. getQueryable fuel st c = Some (Inr nested) \<and> nested \<noteq> [])"
    if h: "isZodObject child \<and> getQueryable (Suc fuel) st schema = Some (Inr tq)
           \<and> (\<forall>(k', c') \<in> set (pre @ (key, c) # post). key \<notin> queryableAliases st c')"
  proof -
    from h getQueryable_child [OF assms, of fuel tq] obtain inner where
      i: "getQueryable fuel st c = Some (Inr inner)"
      "map_of tq key = (if inner \<noteq> [] then Some (CTree inner) else None)"
      by (simp only: if_True) blast
    then show ?thesis by (simp add: keys_map_of)
  qed
qed

theorem capability_trees_pruned_witness:
  "deref compositeSchema 6 =
     Some \<lparr>zdef = ZodObject ([] @ (''plain'', 1) # [(''items'', 3), (''later'', 5)]), ext = Some noFlags\<rparr>
   \<and> distinct (map fst ([] @ (''plain'', 1 :: ref) # [(''items'', 3), (''later'', 5)]))
   \<and> deref compositeSchema 1 = Some \<lparr>zdef = ZodObject [(''a'', 0)], ext = Some noFlags\<rparr>
   \<and> isZodObject \<lparr>zdef = ZodObject [(''a'', 0)], ext = Some noFlags\<rparr>
   \<and> (6 :: ref) \<notin> {}
   \<and> getFilterable (Suc 2) compositeSchema 6 {} =
       Some (Inr [(''plain'', CTree [(''a'', CTrue)]), (''items'', CTree [(''b'', CTrue)]),
                  (''later'', CTree [(''c'', CTrue)])], {1, 2, 4, 6})
   \<and> filterableEntries (\<lambda>x vs. getFilterable 2 compositeSchema x vs) compositeSchema [] []
         (insert 6 {}) = Some (Inr [], {6})
   \<and> filterableTarget compositeSchema 1 = Some 1
   \<and> getFilterable 2 compositeSchema 1 {6} = Some (Inr [(''a'', CTrue)], {1, 6})
   \<and> getSortable (Suc 2) compositeSchema 6 = Some (Inr [(''plain'', CTree [(''a'', CTrue)])])
   \<and> getSortable 2 compositeSchema 1 = Some (Inr [(''a'', CTrue)])
   \<and> getQueryable (Suc 2) compositeSchema 6 = Some (Inr [(''plain'', CTree [(''a'', CTrue)])])
   \<and> getQueryable 2 compositeSchema 1 = Some (Inr [(''a'', CTrue)])
   \<and> ''plain'' \<notin> queryableAliases compositeSchema 1 \<and> ''plain'' \<notin> queryableAliases compositeSchema 3
   \<and> ''plain'' \<notin> queryableAliases compositeSchema 5
   \<and> prunedCaps [(''plain'', CTree [(''a'', CTrue)]), (''items'', CTree [(''b'', CTrue)]),
                  (''later'', CTree [(''c'', CTrue)])]
   \<and> prunedCaps [(''plain'', CTree [(''a'', CTrue)])]
   \<and> ''plain'' \<in> fst ` set [(''plain'', CTree [(''a'', CTrue)]), (''items'', CTree [(''b'', CTrue)]),
                  (''later'', CTree [(''c'', CTrue)])]
   \<and> ''plain'' \<in> fst ` set [(''plain'', CTree [(''a'', CTrue)])]"
proof -
  have root: "deref compositeSchema 6 =
     Some \<lparr>zdef = ZodObject ([] @ (''plain'', 1) # [(''items'', 3), (''later'', 5)]), ext = Some noFlags\<rparr>"
    and plain: "deref compositeSchema 1 = Some \<lparr>zdef = ZodObject [(''a'', 0)], ext = Some noFlags\<rparr>"
    by (simp_all add: deref_def compositeSchema_def)
  have f: "getFilterable (Suc 2) compositeSchema 6 {} =
       Some (Inr [(''plain'', CTree [(''a'', CTrue)]), (''items'', CTree [(''b'', CTrue)]),
                  (''later'', CTree [(''c'', CTrue)])], {1, 2, 4, 6})"
    by code_simp
  have before: "filterableEntries (\<lambda>x vs. getFilterable 2 compositeSchema x vs) compositeSchema [] []
         (insert 6 {}) = Some (Inr [], {6})"
    by simp
  have target: "filterableTarget compositeSchema 1 = Some 1"
    by code_simp
  have inner: "getFilterable 2 compositeSchema 1 {6} = Some (Inr [(''a'', CTrue)], {1, 6})"
    by code_simp
  have s: "getSortable (Suc 2) compositeSchema 6 = Some (Inr [(''plain'', CTree [(''a'', CTrue)])])"
    and s1: "getSortable 2 compositeSchema 1 = Some (Inr [(''a'', CTrue)])"
    by code_simp+
  have q: "getQueryable (Suc 2) compositeSchema 6 = Some (Inr [(''plain'', CTree [(''a'', CTrue)])])"
    and q1: "getQueryable 2 compositeSchema 1 = Some (Inr [(''a'', CTrue)])"
    by code_simp+
  have free: "''plain'' \<notin> queryableAliases compositeSchema 1 \<and> ''plain'' \<notin> queryableAliases compositeSchema 3
     \<and> ''plain'' \<notin> queryableAliases compositeSchema 5"
    by (simp add: queryableAliases_def declaredAliases_def deref_def compositeSchema_def isZodObject_def
        noFlags_def)
  show ?thesis
    using capability_trees_pruned [where pre = "[]" and key = "''plain''" and c = 1
        and post = "[(''items'', 3), (''later'', 5)]" and st = compositeSchema and schema = 6
        and vis = "{}" and fuel = 2 and x = 1
        and ?a1.0 = "[]" and ?v1.0 = "{6}" and n = "Suc 2" and r = 6 and vs = "{}"
        and ?t0.0 = "[(''plain'', CTree [(''a'', CTrue)]), (''items'', CTree [(''b'', CTrue)]),
                   (''later'', CTree [(''c'', CTrue)])]"
        and vs' = "{1, 2, 4, 6}"
        and ?t1.0 = "[(''plain'', CTree [(''a'', CTrue)])]" and ?t2.0 = "[(''plain'', CTree [(''a'', CTrue)])]"
        and tf = "[(''plain'', CTree [(''a'', CTrue)]), (''items'', CTree [(''b'', CTrue)]),
                   (''later'', CTree [(''c'', CTrue)])]"
        and vis' = "{1, 2, 4, 6}"
        and ts = "[(''plain'', CTree [(''a'', CTrue)])]" and tq = "[(''plain'', CTree [(''a'', CTrue)])]"]
      root plain f before target inner s s1 q q1 free
    by (simp add: isZodObject_def prunedCaps_def)
qed

end
